theory Spec2Isabelle
  imports
    Complex_Main
    "HOL-Library.Multiset"
    "HOL-Library.Sublist"
    "HOL-Library.Char_ord"
    "HOL-Library.List_Lexorder"
begin

unbundle bit_operations_syntax

section \<open>Fingerprint engine: hash generation from the DCT coefficients\<close>

text \<open>
  Both fingerprint paths (the Kotlin module and the web fallback of \<^verbatim>\<open>pHash.ts\<close>) end in a
  function \<^verbatim>\<open>generateHashFromDCT\<close> that takes the coefficient matrix of \<^verbatim>\<open>applyDCT\<close>.
  The transform itself sums floating-point products of cosines; its rounding decides the
  coefficients, so it is not modelled, and the results below hold for every coefficient
  matrix, whatever transform produced it. A coefficient (a Kotlin \<^verbatim>\<open>Double\<close>, a
  JavaScript number) is a \<^typ>\<open>real\<close> here: \<^verbatim>\<open>generateHashFromDCT\<close> only sorts and
  compares coefficients, which no rounding affects, and no NaN arises from finite pixels.
  The callers pass a 32 x 32 matrix; the model reads \<open>dct ! i ! j\<close> for \<open>i, j < 8\<close>.
  A \<^typ>\<open>char\<close> stands for a code unit below 256.
\<close>

subsection \<open>String helpers of the two languages\<close>

definition substring :: "string \<Rightarrow> nat \<Rightarrow> nat \<Rightarrow> string" where
  \<comment> \<open>Kotlin \<^verbatim>\<open>s.substring(startIndex, endIndex)\<close>, for \<open>startIndex \<le> endIndex \<le> length s\<close>\<close>
  "substring s startIndex endIndex = take (endIndex - startIndex) (drop startIndex s)"

definition padEnd :: "string \<Rightarrow> nat \<Rightarrow> char \<Rightarrow> string" where
  \<comment> \<open>Kotlin \<^verbatim>\<open>s.padEnd(n, c)\<close>\<close>
  "padEnd s n c = s @ replicate (n - length s) c"

definition substr :: "string \<Rightarrow> nat \<Rightarrow> nat \<Rightarrow> string" where
  \<comment> \<open>JavaScript \<^verbatim>\<open>s.substr(start, len)\<close>: at most \<open>len\<close> characters, fewer at the end\<close>
  "substr s start len = take len (drop start s)"

definition parseBinary :: "string \<Rightarrow> nat" where
  \<comment> \<open>\<^verbatim>\<open>toInt(2)\<close> and \<^verbatim>\<open>parseInt(_, 2)\<close> on a non-empty string of the characters 0 and 1\<close>
  "parseBinary s = foldl (\<lambda>acc c. 2 * acc + (if c = CHR ''1'' then 1 else 0)) 0 s"

definition hexChars :: string where
  "hexChars = ''0123456789abcdef''"

fun toString16 :: "nat \<Rightarrow> string" where
  "toString16 n =
     (if n < 16 then [hexChars ! n]
      else toString16 (n div 16) @ [hexChars ! (n mod 16)])"

definition toUpperChar :: "char \<Rightarrow> char" where
  "toUpperChar c =
     (let n = (of_char c :: nat)
      in if 97 \<le> n \<and> n \<le> 122 then char_of (n - 32) else c)"

definition toUpperCase :: "string \<Rightarrow> string" where
  "toUpperCase s = map toUpperChar s"

subsection \<open>Coefficient block, median and threshold bits (identical in both paths)\<close>

definition blockCoefficients :: "real list list \<Rightarrow> real list" where
  \<comment> \<open>the loops over \<open>i, j < hashSize = 8\<close> that skip the DC component at \<open>[0][0]\<close>\<close>
  "blockCoefficients dctCoefficients =
     concat (map (\<lambda>i. map (\<lambda>j. dctCoefficients ! i ! j)
                         (filter (\<lambda>j. \<not> (i = 0 \<and> j = 0)) [0..<8])) [0..<8])"

definition medianOf :: "real list \<Rightarrow> real" where
  \<comment> \<open>\<^verbatim>\<open>sortedCoefficients[sortedCoefficients.size / 2]\<close>\<close>
  "medianOf coefficients = sort coefficients ! (length coefficients div 2)"

definition binaryHashOf :: "real list \<Rightarrow> string" where
  \<comment> \<open>one character per coefficient: 1 if it is above the median, else 0\<close>
  "binaryHashOf coefficients =
     map (\<lambda>coeff. if medianOf coefficients < coeff then CHR ''1'' else CHR ''0'') coefficients"

subsection \<open>Binary to hexadecimal: the Kotlin loop\<close>

function hexLoop_kt :: "string \<Rightarrow> nat \<Rightarrow> string \<Rightarrow> string" where
  "hexLoop_kt binaryHash i hexHash =
     (if i < length binaryHash
      then hexLoop_kt binaryHash (i + 4)
             (hexHash @ toString16 (parseBinary
                (padEnd (substring binaryHash i (min (i + 4) (length binaryHash))) 4 (CHR ''0''))))
      else hexHash)"
  by pat_completeness auto
termination
  by (relation "measure (\<lambda>(b, i, h). length b - i)") auto

declare hexLoop_kt.simps [simp del]

definition binaryToHex_kt :: "string \<Rightarrow> string" where
  "binaryToHex_kt binaryHash = toUpperCase (hexLoop_kt binaryHash 0 [])"

definition generateHashFromDCT_kt :: "real list list \<Rightarrow> string" where
  "generateHashFromDCT_kt dctCoefficients =
     binaryToHex_kt (binaryHashOf (blockCoefficients dctCoefficients))"

subsection \<open>Binary to hexadecimal: the web fallback loop\<close>

function hexLoop_web :: "string \<Rightarrow> nat \<Rightarrow> string \<Rightarrow> string" where
  "hexLoop_web binaryHash i hexHash =
     (if i < length binaryHash
      then hexLoop_web binaryHash (i + 4)
             (hexHash @ toString16 (parseBinary (substr binaryHash i 4)))
      else hexHash)"
  by pat_completeness auto
termination
  by (relation "measure (\<lambda>(b, i, h). length b - i)") auto

declare hexLoop_web.simps [simp del]

definition binaryToHex_web :: "string \<Rightarrow> string" where
  "binaryToHex_web binaryHash = toUpperCase (hexLoop_web binaryHash 0 [])"

definition generateHashFromDCT_web :: "real list list \<Rightarrow> string" where
  "generateHashFromDCT_web dctCoefficients =
     binaryToHex_web (binaryHashOf (blockCoefficients dctCoefficients))"

section \<open>Similarity scorer: the Hamming distance of two fingerprints\<close>

datatype error = LengthMismatch | NumberFormat

definition hexDigitValue :: "char \<Rightarrow> nat option" where
  \<comment> \<open>one character read in radix 16; \<open>None\<close> where Kotlin's \<^verbatim>\<open>toInt(16)\<close> throws a
      NumberFormatException and JavaScript's \<^verbatim>\<open>parseInt(_, 16)\<close> returns NaN\<close>
  "hexDigitValue c =
     (let n = (of_char c :: nat)
      in if 48 \<le> n \<and> n \<le> 57 then Some (n - 48)
         else if 97 \<le> n \<and> n \<le> 102 then Some (n - 87)
         else if 65 \<le> n \<and> n \<le> 70 then Some (n - 55)
         else None)"

function countSetBits :: "nat \<Rightarrow> nat \<Rightarrow> nat" where
  \<comment> \<open>\<^verbatim>\<open>while (x != 0) { distance += x and 1; x = x shr 1 }\<close>; the operand \<open>x\<close> (the
      source's \<^verbatim>\<open>xor\<close>) is the XOR of two digit values, below 16, so 32-bit arithmetic never wraps\<close>
  "countSetBits x distance =
     (if x \<noteq> 0 then countSetBits (drop_bit 1 x) (distance + (x AND 1)) else distance)"
  by pat_completeness auto
termination
  by (relation "measure (\<lambda>(x, d). x)") (auto simp: drop_bit_eq_div)

declare countSetBits.simps [simp del]

definition hammingStep_kt :: "string \<Rightarrow> string \<Rightarrow> error + nat \<Rightarrow> nat \<Rightarrow> error + nat" where
  \<comment> \<open>one iteration of the Kotlin loop over \<^verbatim>\<open>hash1.indices\<close>; an exception ends the loop\<close>
  "hammingStep_kt hash1 hash2 acc i =
     (case acc of
        Inl e \<Rightarrow> Inl e
      | Inr distance \<Rightarrow>
          (case hexDigitValue (hash1 ! i) of
             None \<Rightarrow> Inl NumberFormat
           | Some int1 \<Rightarrow>
               (case hexDigitValue (hash2 ! i) of
                  None \<Rightarrow> Inl NumberFormat
                | Some int2 \<Rightarrow> Inr (countSetBits (int1 XOR int2) distance))))"

definition hammingDistance_kt :: "string \<Rightarrow> string \<Rightarrow> error + nat" where
  \<comment> \<open>the Kotlin \<^verbatim>\<open>hammingDistance\<close> of the native module (the plain name is the field
      \<open>hammingDistance\<close> of a match below)\<close>
  "hammingDistance_kt hash1 hash2 =
     (if length hash1 \<noteq> length hash2 then Inl LengthMismatch
      else foldl (hammingStep_kt hash1 hash2) (Inr 0) [0..<length hash1])"

definition toInt32 :: "nat option \<Rightarrow> nat" where
  \<comment> \<open>the operand conversion of JavaScript's \<^verbatim>\<open>^\<close>: NaN becomes 0\<close>
  "toInt32 v = (case v of None \<Rightarrow> 0 | Some n \<Rightarrow> n)"

definition hammingStep_js :: "string \<Rightarrow> string \<Rightarrow> nat \<Rightarrow> nat \<Rightarrow> nat" where
  "hammingStep_js hash1 hash2 distance i =
     countSetBits (toInt32 (hexDigitValue (hash1 ! i)) XOR toInt32 (hexDigitValue (hash2 ! i)))
       distance"

definition fallbackHammingDistance :: "string \<Rightarrow> string \<Rightarrow> error + nat" where
  \<comment> \<open>the JavaScript fallback inside \<^verbatim>\<open>calculateHammingDistance\<close> of \<^verbatim>\<open>pHash.ts\<close>\<close>
  "fallbackHammingDistance hash1 hash2 =
     (if length hash1 \<noteq> length hash2 then Inl LengthMismatch
      else Inr (foldl (hammingStep_js hash1 hash2) 0 [0..<length hash1]))"

definition calculateHammingDistance :: "bool \<Rightarrow> string \<Rightarrow> string \<Rightarrow> error + nat" where
  \<comment> \<open>\<^verbatim>\<open>calculateHammingDistance\<close> of \<^verbatim>\<open>pHash.ts\<close>; \<open>native\<close> says that the platform is
      Android or iOS and the native module was loaded (the Kotlin function is the native
      implementation of the repository). A rejected native call is caught and the
      JavaScript fallback runs.\<close>
  "calculateHammingDistance native hash1 hash2 =
     (if native
      then (case hammingDistance_kt hash1 hash2 of
              Inr distance \<Rightarrow> Inr distance
            | Inl e \<Rightarrow> fallbackHammingDistance hash1 hash2)
      else fallbackHammingDistance hash1 hash2)"

definition isHexString :: "string \<Rightarrow> bool" where
  "isHexString s = list_all (\<lambda>c. hexDigitValue c \<noteq> None) s"

definition fingerprintOfDCT :: "bool \<Rightarrow> real list list \<Rightarrow> string" where
  \<comment> \<open>the dispatch of \<^verbatim>\<open>calculatePHash\<close>: the native module on Android and iOS, the web
      fallback elsewhere\<close>
  "fingerprintOfDCT native dctCoefficients =
     (if native then generateHashFromDCT_kt dctCoefficients
      else generateHashFromDCT_web dctCoefficients)"

section \<open>Data model of the match pipeline\<close>

text \<open>
  The interfaces of \<^verbatim>\<open>matchDeduplication.ts\<close>. A JavaScript number is a \<^typ>\<open>real\<close>
  (NaN and the infinities are left out). The field \<^verbatim>\<open>id\<close> of a photo is \<open>photo_id\<close>,
  that of a match is \<open>match_id\<close>; \<^verbatim>\<open>timeWindow.start\<close> and \<^verbatim>\<open>timeWindow.end\<close> are
  \<open>tw_start\<close> and \<open>tw_end\<close>.
\<close>

record PhotoWithHash =
  photo_id :: string
  uri :: string
  filename :: string
  creationTime :: real
  width :: real
  height :: real
  pHash :: "string option"

record TimeWindow =
  tw_start :: real
  tw_end :: real

datatype MatchStatus = pending | approved | rejected

record MatchResult =
  match_id :: string
  photos :: "PhotoWithHash list"
  confidence :: real
  timeWindow :: TimeWindow
  status :: MatchStatus
  hammingDistance :: real

definition photoIds :: "MatchResult \<Rightarrow> string list" where
  \<comment> \<open>\<^verbatim>\<open>match.photos.map(p => p.id)\<close>\<close>
  "photoIds m = map photo_id (photos m)"

section \<open>Deduplication engine\<close>

subsection \<open>Subset removal\<close>

definition isSubsetMatch :: "MatchResult \<Rightarrow> MatchResult \<Rightarrow> bool" where
  "isSubsetMatch matchA matchB =
     (let photoIdsA = set (photoIds matchA);
          photoIdsB = set (photoIds matchB)
      in if card photoIdsA \<ge> card photoIdsB then False
         else (\<forall>photoId \<in> photoIdsA. photoId \<in> photoIdsB))"

definition splice1 :: "'a list \<Rightarrow> nat \<Rightarrow> 'a list" where
  \<comment> \<open>\<^verbatim>\<open>xs.splice(j, 1)\<close>: remove the element at index \<open>j\<close>\<close>
  "splice1 xs j = take j xs @ drop (Suc j) xs"

definition subsetStep :: "MatchResult list \<Rightarrow> MatchResult \<Rightarrow> MatchResult list" where
  \<comment> \<open>the body of the loop over \<open>i\<close>: the accepted list after \<open>currentMatch\<close>\<close>
  "subsetStep filteredMatches currentMatch =
     (let isSubset = list_ex (\<lambda>acceptedMatch. isSubsetMatch currentMatch acceptedMatch)
                       filteredMatches
      in if \<not> isSubset then
           let indicesToRemove =
                 filter (\<lambda>j. isSubsetMatch (filteredMatches ! j) currentMatch)
                   [0..<length filteredMatches]
           in foldl splice1 filteredMatches (rev indicesToRemove) @ [currentMatch]
         else filteredMatches)"

definition removeSubsetMatches :: "MatchResult list \<Rightarrow> MatchResult list" where
  "removeSubsetMatches matches = foldl subsetStep [] matches"

subsection \<open>Reciprocal removal\<close>

fun join :: "string \<Rightarrow> string list \<Rightarrow> string" where
  \<comment> \<open>\<^verbatim>\<open>parts.join(sep)\<close>\<close>
  "join sep [] = []"
| "join sep [x] = x"
| "join sep (x # y # ys) = x @ sep @ join sep (y # ys)"

definition generatePairKey :: "string list \<Rightarrow> string" where
  \<comment> \<open>\<^verbatim>\<open>photoIds.sort().join('|')\<close>; the default sort orders strings by code units\<close>
  "generatePairKey ids = join ''|'' (sort ids)"

definition reciprocalStep ::
  "string set \<times> MatchResult list \<Rightarrow> MatchResult \<Rightarrow> string set \<times> MatchResult list" where
  "reciprocalStep state match =
     (let processedPairs = fst state;
          filteredMatches = snd state;
          ids = sort (photoIds match);
          pairKey = generatePairKey ids
      in if pairKey \<notin> processedPairs
         then (insert pairKey processedPairs, filteredMatches @ [match])
         else (processedPairs, filteredMatches))"

definition removeReciprocalMatches :: "MatchResult list \<Rightarrow> MatchResult list" where
  "removeReciprocalMatches matches = snd (foldl reciprocalStep ({}, []) matches)"

subsection \<open>Temporal-overlap suppression\<close>

definition calculatePhotoOverlap :: "MatchResult \<Rightarrow> MatchResult \<Rightarrow> real" where
  \<comment> \<open>intersection size over union size. For two empty photo lists JavaScript yields
      NaN, and every comparison with NaN is false; here \<open>0 / 0 = 0\<close>, for which the
      callers' tests \<open>> 0.5\<close> and \<open>> 0.3\<close> are false as well.\<close>
  "calculatePhotoOverlap matchA matchB =
     (let photoIdsA = set (photoIds matchA);
          photoIdsB = set (photoIds matchB);
          intersection = Set.filter (\<lambda>i. i \<in> photoIdsB) photoIdsA;
          union = photoIdsA \<union> photoIdsB
      in real (card intersection) / real (card union))"

definition calculateTimeOverlap :: "MatchResult \<Rightarrow> MatchResult \<Rightarrow> real" where
  "calculateTimeOverlap matchA matchB =
     (let startA = tw_start (timeWindow matchA);
          endA = tw_end (timeWindow matchA);
          startB = tw_start (timeWindow matchB);
          endB = tw_end (timeWindow matchB);
          overlapStart = max startA startB;
          overlapEnd = min endA endB
      in if overlapStart \<ge> overlapEnd then 0
         else let overlapDuration = overlapEnd - overlapStart;
                  totalDuration = max endA endB - min startA startB
              in overlapDuration / totalDuration)"

definition hasSignificantOverlap :: "MatchResult \<Rightarrow> MatchResult \<Rightarrow> bool" where
  \<comment> \<open>the test of the inner loop of \<^verbatim>\<open>removeTemporalOverlaps\<close>\<close>
  "hasSignificantOverlap currentMatch existingMatch =
     (let overlap = calculatePhotoOverlap currentMatch existingMatch;
          timeOverlap = calculateTimeOverlap currentMatch existingMatch
      in overlap > 0.5 \<and> timeOverlap > 0)"

definition temporalStep :: "MatchResult list \<Rightarrow> MatchResult \<Rightarrow> MatchResult list" where
  "temporalStep filteredMatches currentMatch =
     (if list_ex (hasSignificantOverlap currentMatch) filteredMatches then filteredMatches
      else filteredMatches @ [currentMatch])"

definition removeTemporalOverlaps :: "MatchResult list \<Rightarrow> MatchResult list" where
  "removeTemporalOverlaps matches = foldl temporalStep [] matches"

subsection \<open>The basic pass\<close>

definition sortByConfidence :: "MatchResult list \<Rightarrow> MatchResult list" where
  \<comment> \<open>\<^verbatim>\<open>sort((a, b) => b.confidence - a.confidence)\<close>: descending, and stable as
      ECMAScript requires\<close>
  "sortByConfidence matches = sort_key (\<lambda>m. - confidence m) matches"

definition deduplicateMatches :: "MatchResult list \<Rightarrow> MatchResult list" where
  "deduplicateMatches matches =
     (if length matches \<le> 1 then matches
      else let sortedMatches = sortByConfidence matches;
               withoutSubsets = removeSubsetMatches sortedMatches;
               withoutReciprocals = removeReciprocalMatches withoutSubsets;
               finalMatches = removeTemporalOverlaps withoutReciprocals
           in finalMatches)"

subsection \<open>Clustering pass\<close>

definition clusterInner ::
  "MatchResult \<Rightarrow> MatchResult list \<times> string set \<Rightarrow> MatchResult
     \<Rightarrow> MatchResult list \<times> string set" where
  \<comment> \<open>one iteration of the inner loop: the state is the cluster of \<open>match\<close> and the set
      \<open>processed\<close> of match ids\<close>
  "clusterInner match state otherMatch =
     (let cluster = fst state; processed = snd state
      in if match_id otherMatch \<in> processed then state
         else if calculatePhotoOverlap match otherMatch > 0.3
              then (cluster @ [otherMatch], insert (match_id otherMatch) processed)
              else state)"

definition clusterOuter ::
  "MatchResult list \<Rightarrow> MatchResult list list \<times> string set \<Rightarrow> MatchResult
     \<Rightarrow> MatchResult list list \<times> string set" where
  "clusterOuter matches state match =
     (let clusters = fst state; processed = snd state
      in if match_id match \<in> processed then state
         else let inner = foldl (clusterInner match)
                            ([match], insert (match_id match) processed) matches
              in (clusters @ [fst inner], snd inner))"

definition identifyPhotoClusters :: "MatchResult list \<Rightarrow> MatchResult list list" where
  "identifyPhotoClusters matches = fst (foldl (clusterOuter matches) ([], {}) matches)"

definition betterOf :: "MatchResult \<Rightarrow> MatchResult \<Rightarrow> MatchResult" where
  \<comment> \<open>the reducer: the current match replaces the best one only on a strictly higher score\<close>
  "betterOf best current =
     (let bestScore = confidence best * real (length (photos best));
          currentScore = confidence current * real (length (photos current))
      in if currentScore > bestScore then current else best)"

definition representative :: "MatchResult list \<Rightarrow> MatchResult list" where
  \<comment> \<open>what one cluster adds to \<^verbatim>\<open>representativeMatches\<close>. A cluster is never empty (it
      starts with its seed); \<^verbatim>\<open>reduce\<close> without an initial value starts at the first
      element.\<close>
  "representative cluster =
     (case cluster of
        [] \<Rightarrow> []
      | first # others \<Rightarrow>
          if length cluster = 1 then [first] else [foldl betterOf first others])"

definition advancedDeduplication :: "MatchResult list \<Rightarrow> MatchResult list" where
  "advancedDeduplication matches =
     (if length matches \<le> 1 then matches
      else let clusters = identifyPhotoClusters matches;
               representativeMatches = concat (map representative clusters)
           in sortByConfidence representativeMatches)"

subsection \<open>Validity filter and the whole pass\<close>

definition isValidMatch :: "MatchResult \<Rightarrow> bool" where
  \<comment> \<open>the predicate of the filter in \<^verbatim>\<open>validateAndCleanMatches\<close>\<close>
  "isValidMatch match =
     (if length (photos match) = 2 \<and> confidence match < 70 then False
      else if hammingDistance match > 25 then False
      else let timeSpan = tw_end (timeWindow match) - tw_start (timeWindow match)
           in if timeSpan > 24 * 60 * 60 * 1000 then False else True)"

definition validateAndCleanMatches :: "MatchResult list \<Rightarrow> MatchResult list" where
  "validateAndCleanMatches matches = filter isValidMatch matches"

definition processMatchesWithDeduplication :: "MatchResult list \<Rightarrow> MatchResult list" where
  "processMatchesWithDeduplication rawMatches =
     (let validMatches = validateAndCleanMatches rawMatches;
          deduplicatedMatches = deduplicateMatches validMatches;
          finalMatches = advancedDeduplication deduplicatedMatches
      in finalMatches)"

section \<open>Candidate generator\<close>

text \<open>
  \<^verbatim>\<open>findMatchesInBatch\<close> of the search screen appends to \<^verbatim>\<open>rawMatches\<close>; the model
  returns the extended list. What the function reads from outside is a parameter:
  whether the native module is in use, the cancel flag as read at the \<open>k\<close>-th photo of
  the batch, and the text of \<^verbatim>\<open>Date.now()\<close> at that photo. The preview it hands to the
  user interface after each new candidate is not part of the result.
\<close>

record GeneratorEnv =
  nativeModule :: bool
  cancelledAt :: "nat \<Rightarrow> bool"
  nowText :: "nat \<Rightarrow> string"

definition hasHash :: "PhotoWithHash \<Rightarrow> bool" where
  \<comment> \<open>JavaScript truthiness of \<^verbatim>\<open>photo.pHash\<close>: neither undefined nor the empty string\<close>
  "hasHash p = (case pHash p of None \<Rightarrow> False | Some h \<Rightarrow> h \<noteq> [])"

definition hashOf :: "PhotoWithHash \<Rightarrow> string" where
  "hashOf p = (case pHash p of None \<Rightarrow> [] | Some h \<Rightarrow> h)"

definition batchWindow :: "PhotoWithHash \<Rightarrow> TimeWindow" where
  "batchWindow newPhoto =
     \<lparr>tw_start = creationTime newPhoto - 15 * 60 * 1000,
      tw_end = creationTime newPhoto + 15 * 60 * 1000\<rparr>"

definition neighbourStep ::
  "bool \<Rightarrow> PhotoWithHash \<Rightarrow> PhotoWithHash list \<times> real \<times> nat \<Rightarrow> PhotoWithHash
     \<Rightarrow> PhotoWithHash list \<times> real \<times> nat" where
  \<comment> \<open>one iteration of the loop over \<^verbatim>\<open>allProcessedPhotos\<close>; the state is
      \<open>(matchingPhotos, totalDistance, validComparisons)\<close>. A distance that throws is
      logged and the photo skipped.\<close>
  "neighbourStep useNative newPhoto state otherPhoto =
     (let matchingPhotos = fst state;
          totalDistance = fst (snd state);
          validComparisons = snd (snd state);
          window = batchWindow newPhoto
      in if photo_id otherPhoto = photo_id newPhoto \<or> \<not> hasHash otherPhoto then state
         else if creationTime otherPhoto \<ge> tw_start window
                 \<and> creationTime otherPhoto \<le> tw_end window
         then (case calculateHammingDistance useNative (hashOf newPhoto) (hashOf otherPhoto) of
                 Inl e \<Rightarrow> state
               | Inr distance \<Rightarrow>
                   if distance \<le> 20
                   then (matchingPhotos @ [otherPhoto], totalDistance + real distance,
                         validComparisons + 1)
                   else state)
         else state)"

definition batchConfidence :: "real \<Rightarrow> real" where
  \<comment> \<open>\<^verbatim>\<open>Math.max(0, 100 - (averageDistance * 3))\<close>\<close>
  "batchConfidence averageDistance = max 0 (100 - (averageDistance * 3))"

definition candidateFor ::
  "GeneratorEnv \<Rightarrow> nat \<Rightarrow> PhotoWithHash list \<Rightarrow> PhotoWithHash \<Rightarrow> MatchResult option" where
  \<comment> \<open>the candidate of the \<open>k\<close>-th photo of the batch, if it found a similar photo\<close>
  "candidateFor env k allProcessedPhotos newPhoto =
     (let found = foldl (neighbourStep (nativeModule env) newPhoto) ([newPhoto], 0, 0)
                    allProcessedPhotos;
          matchingPhotos = fst found;
          totalDistance = fst (snd found);
          validComparisons = snd (snd found)
      in if length matchingPhotos > 1
         then let averageDistance =
                    (if validComparisons > 0 then totalDistance / real validComparisons else 0);
                  confidence = batchConfidence averageDistance
              in Some \<lparr>match_id = ''match-'' @ photo_id newPhoto @ ''-'' @ nowText env k,
                        photos = sort_key creationTime matchingPhotos,
                        confidence = confidence,
                        timeWindow = batchWindow newPhoto,
                        status = pending,
                        hammingDistance = averageDistance\<rparr>
         else None)"

fun findMatchesFrom ::
  "GeneratorEnv \<Rightarrow> PhotoWithHash list \<Rightarrow> nat \<Rightarrow> PhotoWithHash list \<Rightarrow> MatchResult list
     \<Rightarrow> MatchResult list" where
  \<comment> \<open>the loop over \<^verbatim>\<open>newBatch\<close>, from its \<open>k\<close>-th photo on\<close>
  "findMatchesFrom env allProcessedPhotos k [] rawMatches = rawMatches"
| "findMatchesFrom env allProcessedPhotos k (newPhoto # rest) rawMatches =
     (if \<not> hasHash newPhoto \<or> cancelledAt env k
      then findMatchesFrom env allProcessedPhotos (k + 1) rest rawMatches
      else (case candidateFor env k allProcessedPhotos newPhoto of
              None \<Rightarrow> findMatchesFrom env allProcessedPhotos (k + 1) rest rawMatches
            | Some matchResult \<Rightarrow>
                findMatchesFrom env allProcessedPhotos (k + 1) rest
                  (rawMatches @ [matchResult])))"

definition findMatchesInBatch ::
  "GeneratorEnv \<Rightarrow> PhotoWithHash list \<Rightarrow> PhotoWithHash list \<Rightarrow> MatchResult list
     \<Rightarrow> MatchResult list" where
  "findMatchesInBatch env allProcessedPhotos newBatch rawMatches =
     findMatchesFrom env allProcessedPhotos 0 newBatch rawMatches"

section \<open>Notions of the specification\<close>

text \<open>
  The Jaccard overlap of two sets of photo ids and the time-overlap ratio of two windows,
  as the specification words them, and the candidates whose photo ids are distinct and
  free of the key separator.
\<close>

definition wellFormedIds :: "MatchResult \<Rightarrow> bool" where
  "wellFormedIds m \<longleftrightarrow>
     photos m \<noteq> [] \<and> distinct (photoIds m) \<and> list_all (\<lambda>i. CHR ''|'' \<notin> set i) (photoIds m)"

definition jaccard :: "string set \<Rightarrow> string set \<Rightarrow> real" where
  "jaccard A B = real (card (A \<inter> B)) / real (card (A \<union> B))"

definition timeOverlapRatio :: "TimeWindow \<Rightarrow> TimeWindow \<Rightarrow> real" where
  "timeOverlapRatio A B =
     max 0 (min (tw_end A) (tw_end B) - max (tw_start A) (tw_start B))
       / (max (tw_end A) (tw_end B) - min (tw_start A) (tw_start B))"

section \<open>Auxiliary notions for the proofs\<close>

text \<open>
  The number of set bits of a digit value, the set bits of a whole hash string, and the
  chunks of four characters that the packing loops walk through.
\<close>

fun popcount :: "nat \<Rightarrow> nat" where
  "popcount n = (if n = 0 then 0 else n mod 2 + popcount (n div 2))"

declare popcount.simps [simp del]

definition digitDiff :: "string \<Rightarrow> string \<Rightarrow> nat \<Rightarrow> nat" where
  "digitDiff a b i =
     popcount (toInt32 (hexDigitValue (a ! i)) XOR toInt32 (hexDigitValue (b ! i)))"

definition onesOf :: "string \<Rightarrow> nat" where
  "onesOf h = (\<Sum>c\<leftarrow>h. popcount (toInt32 (hexDigitValue c)))"

function chunks4 :: "string \<Rightarrow> string list" where
  "chunks4 s = (if s = [] then [] else take 4 s # chunks4 (drop 4 s))"
  by pat_completeness auto
termination
  by (relation "measure length") auto

declare chunks4.simps [simp del]

definition digit_kt :: "string \<Rightarrow> char" where
  "digit_kt ch = hexChars ! parseBinary (padEnd ch 4 (CHR ''0''))"

definition digit_web :: "string \<Rightarrow> char" where
  "digit_web ch = hexChars ! parseBinary ch"

text \<open>
  For the deduplication engine: the properties that the basic pass establishes (no
  proper subsets, one candidate per pair key, no significant overlap, descending
  confidence), reciprocal removal as a recursion that keeps the first candidate of each
  key, and the invariant of the clustering loops. For the candidate generator: the
  neighbours of a seed and their distances.
\<close>

definition antichain :: "MatchResult set \<Rightarrow> bool" where
  "antichain S = (\<forall>a\<in>S. \<forall>b\<in>S. \<not> isSubsetMatch a b)"

definition pairKeyOf :: "MatchResult \<Rightarrow> string" where
  "pairKeyOf m = generatePairKey (sort (photoIds m))"

fun firstPerKey :: "string set \<Rightarrow> MatchResult list \<Rightarrow> MatchResult list" where
  "firstPerKey seen [] = []"
| "firstPerKey seen (m # ms) =
     (if pairKeyOf m \<in> seen then firstPerKey seen ms
      else m # firstPerKey (insert (pairKeyOf m) seen) ms)"

definition conflictFree :: "MatchResult set \<Rightarrow> bool" where
  "conflictFree S = (\<forall>a\<in>S. \<forall>b\<in>S. a \<noteq> b \<longrightarrow> \<not> hasSignificantOverlap a b)"

definition descending :: "MatchResult list \<Rightarrow> bool" where
  "descending ms = sorted (map (\<lambda>m. - confidence m) ms)"

definition clean :: "MatchResult list \<Rightarrow> bool" where
  "clean ms \<longleftrightarrow> descending ms \<and> antichain (set ms) \<and> distinct (map pairKeyOf ms)
                \<and> conflictFree (set ms)"

definition clusterInv :: "MatchResult set \<Rightarrow> MatchResult list list \<times> string set \<Rightarrow> bool" where
  "clusterInv U state \<longleftrightarrow>
     match_id ` set (concat (fst state)) \<subseteq> snd state
     \<and> distinct (map match_id (concat (fst state)))
     \<and> set (concat (fst state)) \<subseteq> U"

definition isNeighbour :: "bool \<Rightarrow> PhotoWithHash \<Rightarrow> PhotoWithHash \<Rightarrow> bool" where
  \<comment> \<open>the photos that the loop over \<^verbatim>\<open>allProcessedPhotos\<close> adds to the group of \<open>seed\<close>:
      another photo with a hash, inside the window, at a distance of at most 20\<close>
  "isNeighbour useNative seed other \<longleftrightarrow>
     photo_id other \<noteq> photo_id seed \<and> hasHash other
     \<and> tw_start (batchWindow seed) \<le> creationTime other
     \<and> creationTime other \<le> tw_end (batchWindow seed)
     \<and> (case calculateHammingDistance useNative (hashOf seed) (hashOf other) of
           Inl e \<Rightarrow> False
         | Inr d \<Rightarrow> d \<le> 20)"

definition distanceTo :: "bool \<Rightarrow> PhotoWithHash \<Rightarrow> PhotoWithHash \<Rightarrow> real" where
  \<comment> \<open>the distance from the seed that the loop adds to \<^verbatim>\<open>totalDistance\<close>\<close>
  "distanceTo useNative seed other =
     (case calculateHammingDistance useNative (hashOf seed) (hashOf other) of
        Inl e \<Rightarrow> 0
      | Inr d \<Rightarrow> real d)"

definition emittedFrom ::
  "GeneratorEnv \<Rightarrow> PhotoWithHash list \<Rightarrow> PhotoWithHash list \<Rightarrow> MatchResult \<Rightarrow> bool" where
  "emittedFrom env all batch m \<longleftrightarrow>
     (\<exists>k. \<exists>p\<in>set batch. hasHash p \<and> candidateFor env k all p = Some m)"

section \<open>Concrete inputs\<close>

definition examplePhoto :: "string \<Rightarrow> PhotoWithHash" where
  "examplePhoto i =
     \<lparr>photo_id = i, uri = ''file:///'' @ i, filename = i @ ''.jpg'', creationTime = 0,
      width = 32, height = 32, pHash = None\<rparr>"

definition exampleMatch :: "string \<Rightarrow> string list \<Rightarrow> real \<Rightarrow> real \<Rightarrow> real \<Rightarrow> MatchResult" where
  "exampleMatch i ids c s e =
     \<lparr>match_id = i, photos = map examplePhoto ids, confidence = c,
      timeWindow = \<lparr>tw_start = s, tw_end = e\<rparr>, status = pending, hammingDistance = 3\<rparr>"

definition seedA :: MatchResult where
  "seedA = exampleMatch ''m1'' [''p1'', ''p2'', ''p3''] 90 0 10"
definition seedB :: MatchResult where
  "seedB = exampleMatch ''m2'' [''p4'', ''p5'', ''p6''] 85 40 50"
definition bridge :: MatchResult where
  "bridge = exampleMatch ''m3'' [''p2'', ''p3'', ''p4'', ''p5''] 80 20 30"

definition bigGroup :: MatchResult where
  "bigGroup = exampleMatch ''g1'' [''p1'', ''p2'', ''p3''] 90 0 10"
definition smallGroup :: MatchResult where
  "smallGroup = exampleMatch ''g2'' [''p1'', ''p2''] 95 0 10"

definition barPair :: MatchResult where
  "barPair = exampleMatch ''e1'' [''a|b'', ''c''] 90 0 10"
definition plainTriple :: MatchResult where
  "plainTriple = exampleMatch ''e2'' [''a'', ''b'', ''c''] 85 20 30"
definition pairFromP5 :: MatchResult where
  "pairFromP5 = exampleMatch ''r1'' [''p5'', ''p7''] 91 0 10"
definition pairFromP7 :: MatchResult where
  "pairFromP7 = exampleMatch ''r2'' [''p7'', ''p5''] 91 0 10"

definition earlyGroup :: MatchResult where
  "earlyGroup = exampleMatch ''t1'' [''p1'', ''p2'', ''p3'', ''p4''] 90 0 10"
definition lateGroup :: MatchResult where
  "lateGroup = exampleMatch ''t2'' [''p1'', ''p2'', ''p3''] 80 20 30"

definition nearGroup :: MatchResult where
  "nearGroup = exampleMatch ''t3'' [''p1'', ''p2'', ''p3'', ''p5''] 80 5 15"

definition shotAt :: "string \<Rightarrow> real \<Rightarrow> string \<Rightarrow> PhotoWithHash" where
  "shotAt i t h =
     \<lparr>photo_id = i, uri = ''file:///'' @ i, filename = i @ ''.jpg'', creationTime = t,
      width = 32, height = 32, pHash = Some h\<rparr>"

definition exampleEnv :: GeneratorEnv where
  "exampleEnv = \<lparr>nativeModule = False, cancelledAt = (\<lambda>k. False), nowText = (\<lambda>k. ''0'')\<rparr>"

definition shotP1 :: PhotoWithHash where
  "shotP1 = shotAt ''P1'' 0 ''0000000000000000''"
definition shotP2 :: PhotoWithHash where
  "shotP2 = shotAt ''P2'' 300000 ''0000000000000700''"
definition shotP3 :: PhotoWithHash where
  "shotP3 = shotAt ''P3'' 2400000 ''0000000000000F00''"

definition candidateP1 :: MatchResult where
  "candidateP1 =
     \<lparr>match_id = ''match-P1-0'', photos = [shotP1, shotP2], confidence = 91,
      timeWindow = \<lparr>tw_start = - 900000, tw_end = 900000\<rparr>, status = pending,
      hammingDistance = 3\<rparr>"

definition highCornerDCT :: "real list list" where
  \<comment> \<open>a 32 x 32 coefficient matrix that is zero except for the entry \<open>[7][7]\<close>\<close>
  "highCornerDCT =
     replicate 7 (replicate 32 0) @ [replicate 7 0 @ [1] @ replicate 24 0]
       @ replicate 24 (replicate 32 0)"

section \<open>Results about the hexadecimal packing\<close>

text \<open>
  C1. The pattern of 63 ones: the Kotlin loop pads the last chunk \<open>111\<close> to \<open>1110\<close> and
  yields the digit E; the web loop parses the unpadded chunk \<open>111\<close> and yields the digit 7.
  The same happens on a pattern that thresholding can produce, 62 zeros and a one.
\<close>

theorem hex_packing_all_ones:
  "binaryToHex_kt (replicate 63 (CHR ''1'')) = ''FFFFFFFFFFFFFFFE''
   \<and> binaryToHex_web (replicate 63 (CHR ''1'')) = ''FFFFFFFFFFFFFFF7''
   \<and> binaryToHex_kt (replicate 62 (CHR ''0'') @ ''1'') = ''0000000000000002''
   \<and> binaryToHex_web (replicate 62 (CHR ''0'') @ ''1'') = ''0000000000000001''"
  by code_simp

section \<open>Results about fingerprints and their Hamming distance\<close>

subsection \<open>Counting set bits\<close>

lemma popcount_0 [simp]: "popcount 0 = 0"
  by (simp add: popcount.simps)

lemma popcount_double [simp]: "popcount (2 * n) = popcount n"
  by (cases "n = 0") (simp_all add: popcount.simps [of "2 * n"])

lemma popcount_double_Suc [simp]: "popcount (Suc (2 * n)) = Suc (popcount n)"
  by (simp add: popcount.simps [of "Suc (2 * n)"])

lemma countSetBits_popcount: "countSetBits x d = d + popcount x"
proof (induction x d rule: countSetBits.induct)
  case (1 x d)
  show ?case
  proof (cases "x = 0")
    case True
    then show ?thesis by (simp add: countSetBits.simps)
  next
    case False
    have "countSetBits x d = countSetBits (drop_bit 1 x) (d + (x AND 1))"
      using False by (simp add: countSetBits.simps [of x])
    also have "\<dots> = d + (x AND 1) + popcount (drop_bit 1 x)"
      using False by (rule "1.IH")
    also have "\<dots> = d + popcount x"
      using False by (simp add: popcount.simps [of x] and_one_eq drop_bit_eq_div)
    finally show ?thesis .
  qed
qed

lemma popcount_xor_le: "popcount (a XOR b) \<le> popcount a + popcount b"
proof (induction a arbitrary: b rule: popcount.induct)
  case (1 a)
  show ?case
  proof (cases "a = 0")
    case True
    then show ?thesis by simp
  next
    case False
    have rec: "a XOR b = of_bool (odd a \<noteq> odd b) + 2 * ((a div 2) XOR (b div 2))"
      by (rule xor_rec)
    have ih: "popcount ((a div 2) XOR (b div 2)) \<le> popcount (a div 2) + popcount (b div 2)"
      using False by (rule "1.IH")
    have pa: "popcount a = a mod 2 + popcount (a div 2)"
      using False by (simp add: popcount.simps [of a])
    have pb: "popcount b = b mod 2 + popcount (b div 2)"
      by (cases "b = 0") (simp_all add: popcount.simps [of b])
    have px: "popcount (a XOR b) = of_bool (odd a \<noteq> odd b) + popcount ((a div 2) XOR (b div 2))"
      by (subst rec) (cases "odd a \<noteq> odd b"; simp)
    show ?thesis
      using ih by (simp add: pa pb px) presburger
  qed
qed

subsection \<open>The distance as a sum over the digit positions\<close>

lemma fold_js_sum:
  "foldl (hammingStep_js a b) d [0..<n] = d + (\<Sum>i\<leftarrow>[0..<n]. digitDiff a b i)"
  by (induction n) (simp_all add: hammingStep_js_def countSetBits_popcount digitDiff_def)

lemma fold_kt_sum:
  "\<forall>i<n. hexDigitValue (a ! i) \<noteq> None \<and> hexDigitValue (b ! i) \<noteq> None \<Longrightarrow>
   foldl (hammingStep_kt a b) (Inr d) [0..<n] = Inr (d + (\<Sum>i\<leftarrow>[0..<n]. digitDiff a b i))"
proof (induction n)
  case 0
  then show ?case by simp
next
  case (Suc n)
  then obtain x y where "hexDigitValue (a ! n) = Some x" "hexDigitValue (b ! n) = Some y"
    by (metis lessI not_None_eq)
  with Suc show ?case
    by (simp add: hammingStep_kt_def countSetBits_popcount digitDiff_def toInt32_def)
qed

lemma isHexString_nth: "isHexString s \<Longrightarrow> i < length s \<Longrightarrow> hexDigitValue (s ! i) \<noteq> None"
  by (simp add: isHexString_def list_all_length)

lemma fallback_eq_sum:
  "length a = length b \<Longrightarrow>
   fallbackHammingDistance a b = Inr (\<Sum>i\<leftarrow>[0..<length a]. digitDiff a b i)"
  by (simp add: fallbackHammingDistance_def fold_js_sum)

lemma native_eq_sum:
  assumes "length a = length b" "isHexString a" "isHexString b"
  shows "hammingDistance_kt a b = Inr (\<Sum>i\<leftarrow>[0..<length a]. digitDiff a b i)"
proof -
  have "\<forall>i<length a. hexDigitValue (a ! i) \<noteq> None \<and> hexDigitValue (b ! i) \<noteq> None"
    using assms by (simp add: isHexString_nth)
  from fold_kt_sum [OF this, of 0] assms(1) show ?thesis
    by (simp add: hammingDistance_kt_def)
qed

lemma fold_kt_Inr_js:
  "foldl (hammingStep_kt a b) (Inr d0) [0..<n] = Inr d \<Longrightarrow>
   foldl (hammingStep_js a b) d0 [0..<n] = d"
proof (induction n arbitrary: d)
  case 0
  then show ?case by simp
next
  case (Suc n)
  have step: "hammingStep_kt a b (foldl (hammingStep_kt a b) (Inr d0) [0..<n]) n = Inr d"
    using Suc.prems by simp
  show ?case
  proof (cases "foldl (hammingStep_kt a b) (Inr d0) [0..<n]")
    case (Inl e)
    with step show ?thesis by (simp add: hammingStep_kt_def)
  next
    case (Inr d')
    have prev: "foldl (hammingStep_js a b) d0 [0..<n] = d'"
      using Inr Suc.IH by simp
    have "hammingStep_kt a b (Inr d') n = Inr d"
      using step Inr by simp
    then have "hammingStep_js a b d' n = d"
      by (auto simp: hammingStep_kt_def hammingStep_js_def toInt32_def
               split: option.splits)
    with prev show ?thesis by simp
  qed
qed

lemma native_agrees_with_fallback:
  "hammingDistance_kt a b = Inr d \<Longrightarrow> fallbackHammingDistance a b = Inr d"
  by (auto simp: hammingDistance_kt_def fallbackHammingDistance_def fold_kt_Inr_js
           split: if_splits)

lemma calculateHammingDistance_fallback:
  "calculateHammingDistance native a b = fallbackHammingDistance a b"
  by (auto simp: calculateHammingDistance_def native_agrees_with_fallback split: sum.splits)

lemma onesOf_sum_nth: "onesOf h = (\<Sum>i\<leftarrow>[0..<length h]. popcount (toInt32 (hexDigitValue (h ! i))))"
proof -
  have "h = map (\<lambda>i. h ! i) [0..<length h]"
    by (simp add: map_nth)
  then have "onesOf h = (\<Sum>c\<leftarrow>map (\<lambda>i. h ! i) [0..<length h]. popcount (toInt32 (hexDigitValue c)))"
    unfolding onesOf_def by simp
  then show ?thesis by (simp add: comp_def)
qed

lemma sum_digitDiff_le:
  "length a = length b \<Longrightarrow> (\<Sum>i\<leftarrow>[0..<length a]. digitDiff a b i) \<le> onesOf a + onesOf b"
proof -
  assume len: "length a = length b"
  have "(\<Sum>i\<leftarrow>[0..<length a]. digitDiff a b i)
        \<le> (\<Sum>i\<leftarrow>[0..<length a]. popcount (toInt32 (hexDigitValue (a ! i)))
                                  + popcount (toInt32 (hexDigitValue (b ! i))))"
    by (rule sum_list_mono) (simp add: digitDiff_def popcount_xor_le)
  also have "\<dots> = onesOf a + onesOf b"
    by (simp add: onesOf_sum_nth len sum_list_addf)
  finally show ?thesis .
qed

subsection \<open>The two packing loops, chunk by chunk\<close>

lemma parseBinary_snoc:
  "parseBinary (s @ [c]) = 2 * parseBinary s + (if c = CHR ''1'' then 1 else 0)"
  by (simp add: parseBinary_def)

lemma popcount_parseBinary:
  "popcount (parseBinary s) = length (filter (\<lambda>c. c = CHR ''1'') s)"
  by (induction s rule: rev_induct) (simp_all add: parseBinary_snoc parseBinary_def)

lemma parseBinary_less: "parseBinary s < 2 ^ length s"
  by (induction s rule: rev_induct) (simp_all add: parseBinary_snoc parseBinary_def)

lemma parseBinary_pad:
  "parseBinary (s @ replicate k (CHR ''0'')) = parseBinary s * 2 ^ k"
proof (induction k)
  case 0
  then show ?case by simp
next
  case (Suc k)
  have "s @ replicate (Suc k) (CHR ''0'') = (s @ replicate k (CHR ''0'')) @ [CHR ''0'']"
    by (simp add: replicate_append_same)
  then show ?case
    using Suc by (simp only: parseBinary_snoc) simp
qed

lemma hexDigit_roundtrip:
  "v < 16 \<Longrightarrow> hexDigitValue (toUpperChar (hexChars ! v)) = Some v"
proof -
  assume "v < 16"
  then have "v \<in> {0, 1, 2, 3, 4, 5, 6, 7, 8, 9, 10, 11, 12, 13, 14, 15}"
    by (simp only: insert_iff empty_iff) arith
  then show ?thesis
    by (auto simp: hexDigitValue_def toUpperChar_def hexChars_def)
qed

lemma chunks4_Nil [simp]: "chunks4 [] = []"
  by (simp add: chunks4.simps)

lemma chunks4_step: "s \<noteq> [] \<Longrightarrow> chunks4 s = take 4 s # chunks4 (drop 4 s)"
  by (simp add: chunks4.simps [of s])

lemma concat_chunks4: "concat (chunks4 s) = s"
  by (induction s rule: chunks4.induct) (case_tac "s = []"; simp add: chunks4_step)

lemma length_chunks4: "length (chunks4 s) = (length s + 3) div 4"
proof (induction s rule: chunks4.induct)
  case (1 s)
  show ?case
  proof (cases "s = []")
    case True
    then show ?thesis by simp
  next
    case False
    then have "0 < length s" by simp
    then have "Suc ((length s - 4 + 3) div 4) = (length s + 3) div 4" by arith
    with "1" False show ?thesis
      by (simp add: chunks4_step)
  qed
qed

lemma chunks4_bounds: "ch \<in> set (chunks4 s) \<Longrightarrow> ch \<noteq> [] \<and> length ch \<le> 4"
proof (induction s rule: chunks4.induct)
  case (1 s)
  show ?case
  proof (cases "s = []")
    case True
    with "1.prems" show ?thesis by simp
  next
    case False
    with "1" show ?thesis
      by (auto simp: chunks4_step)
  qed
qed

lemma substring_chunk:
  "i < length b \<Longrightarrow> substring b i (min (i + 4) (length b)) = take 4 (drop i b)"
  by (cases "i + 4 \<le> length b") (simp_all add: substring_def min_def)

lemma value_kt_less: "length ch \<le> 4 \<Longrightarrow> parseBinary (padEnd ch 4 (CHR ''0'')) < 16"
proof -
  assume "length ch \<le> 4"
  then have "length (padEnd ch 4 (CHR ''0'')) = 4"
    by (simp add: padEnd_def)
  with parseBinary_less [of "padEnd ch 4 (CHR ''0'')"] show ?thesis by simp
qed

lemma value_web_less: "length ch \<le> 4 \<Longrightarrow> parseBinary ch < 16"
proof -
  assume len: "length ch \<le> 4"
  have "parseBinary ch < 2 ^ length ch" by (rule parseBinary_less)
  also have "(2::nat) ^ length ch \<le> 2 ^ 4"
    using len by (intro power_increasing) simp_all
  finally show ?thesis by simp
qed

lemma hexLoop_kt_chunks:
  "hexLoop_kt b i acc = acc @ map digit_kt (chunks4 (drop i b))"
proof (induction b i acc rule: hexLoop_kt.induct)
  case (1 b i acc)
  show ?case
  proof (cases "i < length b")
    case True
    then have ne: "drop i b \<noteq> []" by simp
    have less: "parseBinary (padEnd (take 4 (drop i b)) 4 (CHR ''0'')) < 16"
      by (rule value_kt_less) simp
    have "hexLoop_kt b i acc =
          hexLoop_kt b (i + 4) (acc @ toString16 (parseBinary
             (padEnd (substring b i (min (i + 4) (length b))) 4 (CHR ''0''))))"
      using True by (simp add: hexLoop_kt.simps [of b i])
    also have "\<dots> = (acc @ toString16 (parseBinary
             (padEnd (substring b i (min (i + 4) (length b))) 4 (CHR ''0''))))
             @ map digit_kt (chunks4 (drop (i + 4) b))"
      using True by (rule "1.IH")
    also have "\<dots> = acc @ map digit_kt (chunks4 (drop i b))"
      using less by (simp add: substring_chunk [OF True] chunks4_step [OF ne] digit_kt_def
                       add.commute)
    finally show ?thesis .
  next
    case False
    then show ?thesis by (simp add: hexLoop_kt.simps [of b i])
  qed
qed

lemma hexLoop_web_chunks:
  "hexLoop_web b i acc = acc @ map digit_web (chunks4 (drop i b))"
proof (induction b i acc rule: hexLoop_web.induct)
  case (1 b i acc)
  show ?case
  proof (cases "i < length b")
    case True
    then have ne: "drop i b \<noteq> []" by simp
    have less: "parseBinary (take 4 (drop i b)) < 16"
      by (rule value_web_less) simp
    have "hexLoop_web b i acc =
          hexLoop_web b (i + 4) (acc @ toString16 (parseBinary (substr b i 4)))"
      using True by (simp add: hexLoop_web.simps [of b i])
    also have "\<dots> = (acc @ toString16 (parseBinary (substr b i 4)))
             @ map digit_web (chunks4 (drop (i + 4) b))"
      using True by (rule "1.IH")
    also have "\<dots> = acc @ map digit_web (chunks4 (drop i b))"
      using less by (simp add: substr_def chunks4_step [OF ne] digit_web_def add.commute)
    finally show ?thesis .
  next
    case False
    then show ?thesis by (simp add: hexLoop_web.simps [of b i])
  qed
qed

lemma binaryToHex_kt_chunks:
  "binaryToHex_kt b = map (\<lambda>ch. toUpperChar (digit_kt ch)) (chunks4 b)"
  by (simp add: binaryToHex_kt_def toUpperCase_def hexLoop_kt_chunks)

lemma binaryToHex_web_chunks:
  "binaryToHex_web b = map (\<lambda>ch. toUpperChar (digit_web ch)) (chunks4 b)"
  by (simp add: binaryToHex_web_def toUpperCase_def hexLoop_web_chunks)

subsection \<open>Set bits of a fingerprint\<close>

lemma popcount_shift: "popcount (n * 2 ^ k) = popcount n"
proof (induction k)
  case 0
  then show ?case by simp
next
  case (Suc k)
  have "n * 2 ^ Suc k = 2 * (n * 2 ^ k)" by simp
  then show ?case using Suc by (simp only: popcount_double)
qed

lemma onesOf_kt: "onesOf (binaryToHex_kt b) = length (filter (\<lambda>c. c = CHR ''1'') b)"
proof -
  have digit: "popcount (toInt32 (hexDigitValue (toUpperChar (digit_kt ch))))
               = length (filter (\<lambda>c. c = CHR ''1'') ch)"
    if "ch \<in> set (chunks4 b)" for ch
  proof -
    from that have "length ch \<le> 4" by (simp add: chunks4_bounds)
    then have "hexDigitValue (toUpperChar (digit_kt ch))
               = Some (parseBinary (padEnd ch 4 (CHR ''0'')))"
      unfolding digit_kt_def by (intro hexDigit_roundtrip value_kt_less)
    then show ?thesis
      by (simp add: toInt32_def padEnd_def parseBinary_pad popcount_shift
               popcount_parseBinary)
  qed
  have "onesOf (binaryToHex_kt b)
        = (\<Sum>ch\<leftarrow>chunks4 b. popcount (toInt32 (hexDigitValue (toUpperChar (digit_kt ch)))))"
    by (simp add: onesOf_def binaryToHex_kt_chunks comp_def)
  also have "\<dots> = (\<Sum>ch\<leftarrow>chunks4 b. length (filter (\<lambda>c. c = CHR ''1'') ch))"
    using digit by (intro arg_cong [where f = sum_list] map_cong refl)
  also have "\<dots> = length (filter (\<lambda>c. c = CHR ''1'') (concat (chunks4 b)))"
    by (simp add: filter_concat length_concat comp_def)
  finally show ?thesis by (simp add: concat_chunks4)
qed

lemma onesOf_web: "onesOf (binaryToHex_web b) = length (filter (\<lambda>c. c = CHR ''1'') b)"
proof -
  have digit: "popcount (toInt32 (hexDigitValue (toUpperChar (digit_web ch))))
               = length (filter (\<lambda>c. c = CHR ''1'') ch)"
    if "ch \<in> set (chunks4 b)" for ch
  proof -
    from that have "length ch \<le> 4" by (simp add: chunks4_bounds)
    then have "hexDigitValue (toUpperChar (digit_web ch)) = Some (parseBinary ch)"
      unfolding digit_web_def by (intro hexDigit_roundtrip value_web_less)
    then show ?thesis
      by (simp add: toInt32_def popcount_parseBinary)
  qed
  have "onesOf (binaryToHex_web b)
        = (\<Sum>ch\<leftarrow>chunks4 b. popcount (toInt32 (hexDigitValue (toUpperChar (digit_web ch)))))"
    by (simp add: onesOf_def binaryToHex_web_chunks comp_def)
  also have "\<dots> = (\<Sum>ch\<leftarrow>chunks4 b. length (filter (\<lambda>c. c = CHR ''1'') ch))"
    using digit by (intro arg_cong [where f = sum_list] map_cong refl)
  also have "\<dots> = length (filter (\<lambda>c. c = CHR ''1'') (concat (chunks4 b)))"
    by (simp add: filter_concat length_concat comp_def)
  finally show ?thesis by (simp add: concat_chunks4)
qed

lemma isHexString_kt: "isHexString (binaryToHex_kt b)"
proof -
  have "hexDigitValue (toUpperChar (digit_kt ch)) \<noteq> None" if "ch \<in> set (chunks4 b)" for ch
  proof -
    from that have "length ch \<le> 4" by (simp add: chunks4_bounds)
    then have "hexDigitValue (toUpperChar (digit_kt ch))
               = Some (parseBinary (padEnd ch 4 (CHR ''0'')))"
      unfolding digit_kt_def by (intro hexDigit_roundtrip value_kt_less)
    then show ?thesis by simp
  qed
  then show ?thesis
    by (simp add: isHexString_def binaryToHex_kt_chunks list_all_iff)
qed

lemma isHexString_web: "isHexString (binaryToHex_web b)"
proof -
  have "hexDigitValue (toUpperChar (digit_web ch)) \<noteq> None" if "ch \<in> set (chunks4 b)" for ch
  proof -
    from that have "length ch \<le> 4" by (simp add: chunks4_bounds)
    then have "hexDigitValue (toUpperChar (digit_web ch)) = Some (parseBinary ch)"
      unfolding digit_web_def by (intro hexDigit_roundtrip value_web_less)
    then show ?thesis by simp
  qed
  then show ?thesis
    by (simp add: isHexString_def binaryToHex_web_chunks list_all_iff)
qed

lemma length_binaryToHex_kt: "length (binaryToHex_kt b) = (length b + 3) div 4"
  by (simp add: binaryToHex_kt_chunks length_chunks4)

lemma length_binaryToHex_web: "length (binaryToHex_web b) = (length b + 3) div 4"
  by (simp add: binaryToHex_web_chunks length_chunks4)

subsection \<open>At most 31 coefficients lie above the upper median of 63\<close>

lemma upt_0_8: "[0..<8] = [0, 1, 2, 3, 4, 5, 6, 7 :: nat]"
  by code_simp

lemma length_blockCoefficients: "length (blockCoefficients dct) = 63"
  by (simp add: blockCoefficients_def upt_0_8)

lemma count_above_median:
  assumes "cs \<noteq> []"
  shows "length (filter (\<lambda>c. medianOf cs < c) cs) \<le> length cs - Suc (length cs div 2)"
proof -
  define s where "s = sort cs"
  define k where "k = length cs div 2"
  define P where "P = (\<lambda>c. s ! k < c)"
  have len: "length s = length cs" and sorted: "sorted s" and ms: "mset s = mset cs"
    by (simp_all add: s_def)
  have k: "k < length s"
    using assms by (simp add: k_def len)
  have "length (filter P cs) = size (filter_mset P (mset cs))"
    by (simp flip: mset_filter)
  also have "\<dots> = length (filter P s)"
    by (simp flip: ms mset_filter)
  also have "\<dots> = length (filter P (take (Suc k) s)) + length (filter P (drop (Suc k) s))"
    by (simp flip: filter_append length_append)
  also have "filter P (take (Suc k) s) = []"
  proof -
    have "\<not> P x" if "x \<in> set (take (Suc k) s)" for x
    proof -
      from that obtain i where "i < Suc k" "i < length s" "x = s ! i"
        by (auto simp: in_set_conv_nth)
      then have "x \<le> s ! k"
        using sorted k by (simp add: sorted_nth_mono)
      then show ?thesis by (simp add: P_def)
    qed
    then show ?thesis by (simp add: filter_empty_conv)
  qed
  also have "length ([]::real list) + length (filter P (drop (Suc k) s)) \<le> length (drop (Suc k) s)"
    using length_filter_le [of P "drop (Suc k) s"] by simp
  finally show ?thesis
    by (simp add: P_def s_def k_def medianOf_def)
qed

lemma ones_binaryHashOf:
  "length (filter (\<lambda>c. c = CHR ''1'') (binaryHashOf cs))
   = length (filter (\<lambda>c. medianOf cs < c) cs)"
proof -
  have "(\<lambda>c. (if medianOf cs < c then CHR ''1'' else CHR ''0'') = CHR ''1'')
        = (\<lambda>c. medianOf cs < c)"
    by (intro ext) simp
  then show ?thesis
    by (simp add: binaryHashOf_def filter_map comp_def)
qed

lemma ones_fingerprint_bits:
  "length (filter (\<lambda>c. c = CHR ''1'') (binaryHashOf (blockCoefficients dct))) \<le> 31"
proof -
  have "blockCoefficients dct \<noteq> []"
    using length_blockCoefficients [of dct] by auto
  from count_above_median [OF this] show ?thesis
    by (simp add: ones_binaryHashOf length_blockCoefficients)
qed

lemma ones_fingerprint: "onesOf (fingerprintOfDCT n dct) \<le> 31"
  by (simp add: fingerprintOfDCT_def generateHashFromDCT_kt_def generateHashFromDCT_web_def
        onesOf_kt onesOf_web ones_fingerprint_bits)

lemma length_fingerprint: "length (fingerprintOfDCT n dct) = 16"
  by (simp add: fingerprintOfDCT_def generateHashFromDCT_kt_def generateHashFromDCT_web_def
        length_binaryToHex_kt length_binaryToHex_web binaryHashOf_def length_blockCoefficients)

lemma isHexString_fingerprint: "isHexString (fingerprintOfDCT n dct)"
  by (simp add: fingerprintOfDCT_def generateHashFromDCT_kt_def generateHashFromDCT_web_def
        isHexString_kt isHexString_web)

lemma digitDiff_self: "digitDiff a a i = 0"
  by (simp add: digitDiff_def)

lemma digitDiff_sum_self: "(\<Sum>i\<leftarrow>xs. digitDiff a a i) = 0"
  by (simp add: digitDiff_self)

subsection \<open>When the two paths agree\<close>

lemma sub4_mod: "4 \<le> (n::nat) \<Longrightarrow> (n - 4) mod 4 = n mod 4"
  by (simp add: le_mod_geq)

lemma sub4_round: "4 \<le> (n::nat) \<Longrightarrow> n - 4 - (n - 4) mod 4 + 4 = n - n mod 4"
proof -
  assume ge: "4 \<le> n"
  have "4 * (n div 4) + n mod 4 = n" by simp
  moreover have "1 \<le> n div 4" using ge by (simp add: Suc_le_eq div_greater_zero_iff)
  ultimately have "n mod 4 + 4 \<le> n" by linarith
  then show ?thesis by (simp add: sub4_mod [OF ge])
qed

lemma chunks4_lengths:
  "ch \<in> set (chunks4 b) \<Longrightarrow>
   length ch = 4 \<or> (length b mod 4 \<noteq> 0 \<and> ch = drop (length b - length b mod 4) b)"
proof (induction b rule: chunks4.induct)
  case (1 s)
  show ?case
  proof (cases "s = []")
    case True
    with "1.prems" show ?thesis by simp
  next
    case False
    from "1.prems" False consider "ch = take 4 s" | "ch \<in> set (chunks4 (drop 4 s))"
      by (auto simp: chunks4_step)
    then show ?thesis
    proof cases
      case 1
      show ?thesis
      proof (cases "4 \<le> length s")
        case True
        with 1 show ?thesis by simp
      next
        case short: False
        then have "length s mod 4 = length s" "length s \<noteq> 0"
          using False by simp_all
        with 1 short show ?thesis by simp
      qed
    next
      case 2
      from "1.IH" [OF False 2] show ?thesis
      proof
        assume "length ch = 4"
        then show ?thesis by simp
      next
        assume a: "length (drop 4 s) mod 4 \<noteq> 0
                   \<and> ch = drop (length (drop 4 s) - length (drop 4 s) mod 4) (drop 4 s)"
        have ge: "4 \<le> length s"
        proof (rule ccontr)
          assume "\<not> 4 \<le> length s"
          then have "drop 4 s = []" by simp
          with a show False by simp
        qed
        then have m: "(length s - 4) mod 4 = length s mod 4"
          by (rule sub4_mod)
        have "drop (length (drop 4 s) - length (drop 4 s) mod 4) (drop 4 s)
              = drop (length s - length s mod 4) s"
          by (simp only: drop_drop length_drop sub4_round [OF ge])
        with a m show ?thesis by simp
      qed
    qed
  qed
qed


lemma chunks4_last:
  "length b mod 4 \<noteq> 0 \<Longrightarrow> drop (length b - length b mod 4) b \<in> set (chunks4 b)"
proof (induction b rule: chunks4.induct)
  case (1 s)
  have ne: "s \<noteq> []" using "1.prems" by auto
  show ?case
  proof (cases "4 \<le> length s")
    case True
    have "length (drop 4 s) mod 4 \<noteq> 0"
      using "1.prems" by (simp add: sub4_mod [OF True])
    from "1.IH" [OF ne this]
    have "drop (length (drop 4 s) - length (drop 4 s) mod 4) (drop 4 s) \<in> set (chunks4 (drop 4 s))" .
    then have "drop (length s - length s mod 4) s \<in> set (chunks4 (drop 4 s))"
      by (simp only: drop_drop length_drop sub4_round [OF True])
    then show ?thesis by (simp add: chunks4_step [OF ne])
  next
    case False
    then have "length s mod 4 = length s" by simp
    with False show ?thesis by (simp add: chunks4_step [OF ne])
  qed
qed

lemma hexChars_upper_inj:
  assumes "v < 16" "w < 16" "toUpperChar (hexChars ! v) = toUpperChar (hexChars ! w)"
  shows "v = w"
proof -
  have "hexDigitValue (toUpperChar (hexChars ! v)) = Some v"
    "hexDigitValue (toUpperChar (hexChars ! w)) = Some w"
    using assms(1,2) by (simp_all add: hexDigit_roundtrip)
  with assms(3) show ?thesis by (metis option.inject)
qed

lemma full_chunk_same: "length ch = 4 \<Longrightarrow> digit_kt ch = digit_web ch"
proof -
  assume "length ch = 4"
  then have "4 - length ch = 0" by (simp only: diff_self_eq_0)
  then have "padEnd ch 4 (CHR ''0'') = ch"
    unfolding padEnd_def by (simp only: replicate_0 append_Nil2)
  then show ?thesis
    unfolding digit_kt_def digit_web_def by (simp only:)
qed

lemma popcount_eq_0: "popcount n = 0 \<longleftrightarrow> n = 0"
proof (induction n rule: popcount.induct)
  case (1 n)
  show ?case
  proof (cases "n = 0")
    case True
    then show ?thesis by simp
  next
    case False
    have "n mod 2 = 0 \<and> n div 2 = 0 \<longleftrightarrow> n = 0"
      by (metis div_mult_mod_eq add.right_neutral mult_zero_right mod_0 div_0)
    with "1.IH" [OF False] False show ?thesis
      by (simp add: popcount.simps [of n])
  qed
qed

lemma short_chunk_same:
  assumes "length ch < 4"
  shows "toUpperChar (digit_kt ch) = toUpperChar (digit_web ch) \<longleftrightarrow> CHR ''1'' \<notin> set ch"
proof -
  have kt: "parseBinary (padEnd ch 4 (CHR ''0'')) = parseBinary ch * 2 ^ (4 - length ch)"
    by (simp add: padEnd_def parseBinary_pad)
  have lt: "parseBinary (padEnd ch 4 (CHR ''0'')) < 16" "parseBinary ch < 16"
    using assms by (simp_all add: value_kt_less value_web_less)
  have pos: "(2::nat) \<le> 2 ^ (4 - length ch)"
    using assms by (metis One_nat_def Suc_leI power_increasing power_one_right zero_less_diff
                     one_le_numeral)
  have zero: "parseBinary ch = 0 \<longleftrightarrow> CHR ''1'' \<notin> set ch"
  proof -
    have "parseBinary ch = 0 \<longleftrightarrow> popcount (parseBinary ch) = 0"
      by (simp add: popcount_eq_0)
    also have "\<dots> \<longleftrightarrow> CHR ''1'' \<notin> set ch"
      by (auto simp: popcount_parseBinary filter_empty_conv)
    finally show ?thesis .
  qed
  have "toUpperChar (digit_kt ch) = toUpperChar (digit_web ch)
        \<longleftrightarrow> parseBinary (padEnd ch 4 (CHR ''0'')) = parseBinary ch"
    using hexChars_upper_inj [OF lt] by (auto simp: digit_kt_def digit_web_def)
  also have "\<dots> \<longleftrightarrow> parseBinary ch = 0"
  proof
    assume "parseBinary (padEnd ch 4 (CHR ''0'')) = parseBinary ch"
    then have "parseBinary ch * 2 ^ (4 - length ch) = parseBinary ch * 1"
      by (simp add: kt)
    then show "parseBinary ch = 0"
      using pos by (simp only: mult_cancel1) auto
  next
    assume "parseBinary ch = 0"
    then show "parseBinary (padEnd ch 4 (CHR ''0'')) = parseBinary ch"
      by (simp add: kt)
  qed
  finally show ?thesis using zero by simp
qed

lemma packing_agrees_iff:
  assumes "length b mod 4 \<noteq> 0"
  shows "binaryToHex_kt b = binaryToHex_web b
         \<longleftrightarrow> CHR ''1'' \<notin> set (drop (length b - length b mod 4) b)"
proof -
  let ?last = "drop (length b - length b mod 4) b"
  have short: "length ?last < 4"
  proof -
    have "length ?last = length b mod 4"
      by (simp add: mod_less_eq_dividend)
    then show ?thesis by simp
  qed
  have "binaryToHex_kt b = binaryToHex_web b
        \<longleftrightarrow> (\<forall>ch\<in>set (chunks4 b). toUpperChar (digit_kt ch) = toUpperChar (digit_web ch))"
    by (simp add: binaryToHex_kt_chunks binaryToHex_web_chunks)
  also have "\<dots> \<longleftrightarrow> toUpperChar (digit_kt ?last) = toUpperChar (digit_web ?last)"
  proof
    assume "\<forall>ch\<in>set (chunks4 b). toUpperChar (digit_kt ch) = toUpperChar (digit_web ch)"
    then show "toUpperChar (digit_kt ?last) = toUpperChar (digit_web ?last)"
      using chunks4_last [OF assms] by (rule bspec)
  next
    assume l: "toUpperChar (digit_kt ?last) = toUpperChar (digit_web ?last)"
    show "\<forall>ch\<in>set (chunks4 b). toUpperChar (digit_kt ch) = toUpperChar (digit_web ch)"
    proof
      fix ch assume "ch \<in> set (chunks4 b)"
      from chunks4_lengths [OF this] l show "toUpperChar (digit_kt ch) = toUpperChar (digit_web ch)"
        by (auto simp: full_chunk_same)
    qed
  qed
  also have "\<dots> \<longleftrightarrow> CHR ''1'' \<notin> set ?last"
    using short by (rule short_chunk_same)
  finally show ?thesis .
qed

lemma blockCoefficients_last3:
  "drop 60 (blockCoefficients dct) = [dct ! 7 ! 5, dct ! 7 ! 6, dct ! 7 ! 7]"
  by (simp add: blockCoefficients_def upt_0_8)

lemma paths_agree_iff:
  "generateHashFromDCT_kt dct = generateHashFromDCT_web dct
   \<longleftrightarrow> \<not> medianOf (blockCoefficients dct) < dct ! 7 ! 5
       \<and> \<not> medianOf (blockCoefficients dct) < dct ! 7 ! 6
       \<and> \<not> medianOf (blockCoefficients dct) < dct ! 7 ! 7"
proof -
  let ?cs = "blockCoefficients dct"
  let ?b = "binaryHashOf ?cs"
  have len: "length ?b = 63"
    by (simp add: binaryHashOf_def length_blockCoefficients)
  then have m: "length ?b mod 4 \<noteq> 0" "length ?b - length ?b mod 4 = 60"
    by simp_all
  have "drop 60 ?b
        = map (\<lambda>coeff. if medianOf ?cs < coeff then CHR ''1'' else CHR ''0'') (drop 60 ?cs)"
    by (simp add: binaryHashOf_def drop_map)
  then have last: "drop 60 ?b
        = map (\<lambda>coeff. if medianOf ?cs < coeff then CHR ''1'' else CHR ''0'')
            [dct ! 7 ! 5, dct ! 7 ! 6, dct ! 7 ! 7]"
    by (simp only: blockCoefficients_last3)
  have "generateHashFromDCT_kt dct = generateHashFromDCT_web dct
        \<longleftrightarrow> CHR ''1'' \<notin> set (drop 60 ?b)"
    using packing_agrees_iff [OF m(1)]
    by (simp only: generateHashFromDCT_kt_def generateHashFromDCT_web_def m(2))
  also have "\<dots> \<longleftrightarrow> \<not> medianOf ?cs < dct ! 7 ! 5 \<and> \<not> medianOf ?cs < dct ! 7 ! 6
                    \<and> \<not> medianOf ?cs < dct ! 7 ! 7"
    by (simp add: last)
  finally show ?thesis .
qed

text \<open>
  C2. On every coefficient matrix the two paths return the same string exactly when none
  of the last three coefficients of the block, \<open>[7][5]\<close>, \<open>[7][6]\<close> and \<open>[7][7]\<close>,
  lies above the median: the last chunk holds their three bits, which Kotlin pads with a
  0 and the web fallback does not. They differ on the coefficient matrix
  \<open>highCornerDCT\<close>, whose only non-zero entry is \<open>[7][7]\<close>.
\<close>

theorem fingerprint_paths_differ:
  "(generateHashFromDCT_kt dct = generateHashFromDCT_web dct
     \<longleftrightarrow> \<not> medianOf (blockCoefficients dct) < dct ! 7 ! 5
         \<and> \<not> medianOf (blockCoefficients dct) < dct ! 7 ! 6
         \<and> \<not> medianOf (blockCoefficients dct) < dct ! 7 ! 7)
   \<and> generateHashFromDCT_kt highCornerDCT = ''0000000000000002''
   \<and> generateHashFromDCT_web highCornerDCT = ''0000000000000001''"
proof -
  have "generateHashFromDCT_kt highCornerDCT = ''0000000000000002''
        \<and> generateHashFromDCT_web highCornerDCT = ''0000000000000001''"
    by code_simp
  with paths_agree_iff [of dct] show ?thesis by (rule conjI)
qed

subsection \<open>Symmetry, zero self-distance and the bound\<close>

text \<open>
  C7. The distance is symmetric, in the TypeScript function and in the Kotlin one, for
  all pairs of strings; the distance of a string to itself is 0; and two fingerprints
  that the engine produced, on either path, from any two coefficient matrices are at a
  distance of at most 63. (Each holds at most 31 set bits, because at most 31 of the 63
  coefficients lie above their upper median.)
\<close>

theorem hamming_distance_properties:
  "calculateHammingDistance native a b = calculateHammingDistance native b a
   \<and> hammingDistance_kt a b = hammingDistance_kt b a
   \<and> calculateHammingDistance native a a = Inr 0
   \<and> hammingDistance_kt (fingerprintOfDCT n1 dct1) (fingerprintOfDCT n1 dct1) = Inr 0
   \<and> (\<exists>d. calculateHammingDistance native (fingerprintOfDCT n1 dct1) (fingerprintOfDCT n2 dct2)
            = Inr d \<and> d \<le> 63)
   \<and> (\<exists>d. hammingDistance_kt (fingerprintOfDCT n1 dct1) (fingerprintOfDCT n2 dct2)
            = Inr d \<and> d \<le> 63)"
proof -
  let ?f1 = "fingerprintOfDCT n1 dct1" and ?f2 = "fingerprintOfDCT n2 dct2"
  have len: "length ?f1 = length ?f2"
    by (simp add: length_fingerprint)
  have sym_kt: "hammingDistance_kt a b = hammingDistance_kt b a"
  proof -
    have "hammingStep_kt a b = hammingStep_kt b a"
      by (intro ext) (simp add: hammingStep_kt_def xor.commute split: sum.splits option.splits)
    then show ?thesis by (simp add: hammingDistance_kt_def)
  qed
  have sym_js: "fallbackHammingDistance a b = fallbackHammingDistance b a"
  proof -
    have "hammingStep_js a b = hammingStep_js b a"
      by (intro ext) (simp add: hammingStep_js_def xor.commute)
    then show ?thesis by (simp add: fallbackHammingDistance_def)
  qed
  have bound: "(\<Sum>i\<leftarrow>[0..<length ?f1]. digitDiff ?f1 ?f2 i) \<le> 63"
    using sum_digitDiff_le [OF len] ones_fingerprint [of n1 dct1] ones_fingerprint [of n2 dct2]
    by linarith
  have "calculateHammingDistance native a b = calculateHammingDistance native b a"
    by (simp add: calculateHammingDistance_fallback sym_js)
  moreover note sym_kt
  moreover have "calculateHammingDistance native a a = Inr 0"
    by (simp add: calculateHammingDistance_fallback fallback_eq_sum digitDiff_sum_self)
  moreover have "hammingDistance_kt ?f1 ?f1 = Inr 0"
    by (simp add: native_eq_sum isHexString_fingerprint digitDiff_sum_self)
  moreover have "\<exists>d. calculateHammingDistance native ?f1 ?f2 = Inr d \<and> d \<le> 63"
    using bound by (simp add: calculateHammingDistance_fallback fallback_eq_sum [OF len])
  moreover have "\<exists>d. hammingDistance_kt ?f1 ?f2 = Inr d \<and> d \<le> 63"
    using bound by (simp add: native_eq_sum [OF len] isHexString_fingerprint)
  ultimately show ?thesis by blast
qed

theorem hamming_distance_properties_witness:
  "calculateHammingDistance True ''00FF'' ''0F0F'' = Inr 8
   \<and> calculateHammingDistance True ''0F0F'' ''00FF'' = Inr 8
   \<and> (\<exists>d. hammingDistance_kt (fingerprintOfDCT True highCornerDCT)
              (fingerprintOfDCT False highCornerDCT) = Inr d \<and> d \<le> 63)"
proof -
  have "calculateHammingDistance True ''00FF'' ''0F0F'' = Inr 8"
    by code_simp
  with hamming_distance_properties [of True "''00FF''" "''0F0F''" True highCornerDCT False highCornerDCT]
  show ?thesis by simp
qed

subsection \<open>The length check\<close>

text \<open>
  C8. The distance fails with LengthMismatch exactly when the two strings differ in
  length. For equal lengths the TypeScript function returns a number for all strings, and
  the Kotlin function returns a number for all hexadecimal strings (on another character
  its \<^verbatim>\<open>toInt(16)\<close> throws, which the TypeScript caller catches).
\<close>

theorem distance_length_mismatch:
  "(calculateHammingDistance native hexA hexB = Inl LengthMismatch
      \<longleftrightarrow> length hexA \<noteq> length hexB)
   \<and> (hammingDistance_kt hexA hexB = Inl LengthMismatch \<longleftrightarrow> length hexA \<noteq> length hexB)
   \<and> (length hexA = length hexB \<longrightarrow> (\<exists>n. calculateHammingDistance native hexA hexB = Inr n))
   \<and> (length hexA = length hexB \<and> isHexString hexA \<and> isHexString hexB
        \<longrightarrow> (\<exists>n. hammingDistance_kt hexA hexB = Inr n))"
proof -
  have no_mismatch: "foldl (hammingStep_kt hexA hexB) acc is \<noteq> Inl LengthMismatch"
    if "acc \<noteq> Inl LengthMismatch" for acc "is"
    using that
    by (induction "is" arbitrary: acc)
       (auto simp: hammingStep_kt_def split: sum.splits option.splits)
  have "calculateHammingDistance native hexA hexB = Inl LengthMismatch
        \<longleftrightarrow> length hexA \<noteq> length hexB"
    by (simp add: calculateHammingDistance_fallback fallbackHammingDistance_def)
  moreover have "hammingDistance_kt hexA hexB = Inl LengthMismatch
        \<longleftrightarrow> length hexA \<noteq> length hexB"
    using no_mismatch [of "Inr 0"] by (simp add: hammingDistance_kt_def)
  moreover have "\<exists>n. calculateHammingDistance native hexA hexB = Inr n"
    if "length hexA = length hexB"
    using that by (simp add: calculateHammingDistance_fallback fallbackHammingDistance_def)
  moreover have "\<exists>n. hammingDistance_kt hexA hexB = Inr n"
    if "length hexA = length hexB \<and> isHexString hexA \<and> isHexString hexB"
    using that by (simp add: native_eq_sum)
  ultimately show ?thesis by blast
qed

theorem distance_length_mismatch_witness:
  "calculateHammingDistance True ''0F'' ''0F0'' = Inl LengthMismatch
   \<and> hammingDistance_kt ''0F'' ''0F0'' = Inl LengthMismatch
   \<and> (\<exists>n. calculateHammingDistance True ''A5'' ''5A'' = Inr n)
   \<and> (\<exists>n. hammingDistance_kt ''A5'' ''5A'' = Inr n)
   \<and> isHexString ''A5'' \<and> isHexString ''5A''"
proof -
  have hex: "isHexString ''A5''" "isHexString ''5A''"
    by code_simp+
  have "length ''0F'' \<noteq> length ''0F0''" "length ''A5'' = length ''5A''"
    by simp_all
  with hex distance_length_mismatch [of True "''0F''" "''0F0''"]
    distance_length_mismatch [of True "''A5''" "''5A''"]
  show ?thesis by simp
qed

section \<open>Results about the deduplication engine and the candidate generator\<close>

subsection \<open>Subsequences\<close>

lemma subseq_set_subset: "subseq xs ys \<Longrightarrow> set xs \<subseteq> set ys"
  by (induction rule: list_emb.induct) auto

lemma subseq_sorted_wrt: "subseq xs ys \<Longrightarrow> sorted_wrt P ys \<Longrightarrow> sorted_wrt P xs"
proof (induction rule: list_emb.induct)
  case (list_emb_Nil ys)
  then show ?case by simp
next
  case (list_emb_Cons xs ys y)
  then show ?case by simp
next
  case (list_emb_Cons2 x y xs ys)
  then have "set xs \<subseteq> set ys" by (simp add: subseq_set_subset)
  with list_emb_Cons2 show ?case by auto
qed

lemma subseq_mset: "subseq xs ys \<Longrightarrow> mset xs \<subseteq># mset ys"
proof (induction rule: list_emb.induct)
  case (list_emb_Nil ys)
  then show ?case by simp
next
  case (list_emb_Cons xs ys y)
  then show ?case
    using subset_mset.order_trans [of "mset xs" "mset ys" "add_mset y (mset ys)"] by simp
next
  case (list_emb_Cons2 x y xs ys)
  then show ?case by simp
qed

lemma subseq_distinct: "subseq xs ys \<Longrightarrow> distinct ys \<Longrightarrow> distinct xs"
proof (induction rule: list_emb.induct)
  case (list_emb_Nil ys)
  then show ?case by simp
next
  case (list_emb_Cons xs ys y)
  then show ?case by simp
next
  case (list_emb_Cons2 x y xs ys)
  then have "set xs \<subseteq> set ys" by (simp add: subseq_set_subset)
  with list_emb_Cons2 show ?case by auto
qed

lemma subseq_snoc_same: "subseq xs ys \<Longrightarrow> subseq (xs @ [c]) (ys @ [c])"
  by (simp add: list_emb_append_mono)

lemma subseq_snoc_skip: "subseq xs ys \<Longrightarrow> subseq xs (ys @ [c])"
  by (metis append_Nil2 list_emb_Nil list_emb_append_mono)

subsection \<open>Removing collected indices in reverse order is a filter\<close>

lemma splice1_append:
  "k < length xs \<Longrightarrow> splice1 (xs @ ys) k = splice1 xs k @ ys"
  by (simp add: splice1_def)

lemma splice_descending_append:
  "sorted_wrt (>) ks \<Longrightarrow> \<forall>k\<in>set ks. k < length xs \<Longrightarrow>
   foldl splice1 (xs @ ys) ks = foldl splice1 xs ks @ ys"
proof (induction ks arbitrary: xs)
  case Nil
  then show ?case by simp
next
  case (Cons k ks)
  have k: "k < length xs" using Cons.prems by simp
  have len: "length (splice1 xs k) = length xs - 1"
    using k by (simp add: splice1_def)
  have "\<forall>j\<in>set ks. j < length (splice1 xs k)"
    using Cons.prems k by (auto simp: len)
  with Cons.IH [of "splice1 xs k"] Cons.prems show ?case
    by (simp add: splice1_append [OF k])
qed

lemma indices_snoc:
  "filter (\<lambda>j. P ((xs @ [x]) ! j)) [0..<length (xs @ [x])]
   = filter (\<lambda>j. P (xs ! j)) [0..<length xs] @ (if P x then [length xs] else [])"
proof -
  have "filter (\<lambda>j. P ((xs @ [x]) ! j)) [0..<length xs]
        = filter (\<lambda>j. P (xs ! j)) [0..<length xs]"
    by (rule filter_cong) (simp_all add: nth_append)
  then show ?thesis by simp
qed

lemma splice_indices_filter:
  "foldl splice1 xs (rev (filter (\<lambda>j. P (xs ! j)) [0..<length xs])) = filter (\<lambda>x. \<not> P x) xs"
proof (induction xs rule: rev_induct)
  case Nil
  then show ?case by simp
next
  case (snoc x xs)
  let ?js = "filter (\<lambda>j. P (xs ! j)) [0..<length xs]"
  have desc: "sorted_wrt (>) (rev ?js)"
    by (simp add: sorted_wrt_rev sorted_wrt_filter)
  have bound: "\<forall>k\<in>set (rev ?js). k < length xs"
    by simp
  show ?case
  proof (cases "P x")
    case True
    have "splice1 (xs @ [x]) (length xs) = xs"
      by (simp add: splice1_def)
    with True snoc show ?thesis
      by (simp only: indices_snoc) simp
  next
    case False
    with snoc splice_descending_append [OF desc bound, of "[x]"] show ?thesis
      by (simp only: indices_snoc) simp
  qed
qed

subsection \<open>Stage B: subset removal\<close>

lemma isSubsetMatch_iff:
  "isSubsetMatch a b \<longleftrightarrow> set (photoIds a) \<subset> set (photoIds b)"
proof
  assume "isSubsetMatch a b"
  then have "card (set (photoIds a)) < card (set (photoIds b))"
    and "set (photoIds a) \<subseteq> set (photoIds b)"
    by (auto simp: isSubsetMatch_def Let_def split: if_splits)
  then show "set (photoIds a) \<subset> set (photoIds b)" by auto
next
  assume "set (photoIds a) \<subset> set (photoIds b)"
  then show "isSubsetMatch a b"
    using psubset_card_mono [of "set (photoIds b)" "set (photoIds a)"]
    by (auto simp: isSubsetMatch_def Let_def)
qed

lemma subsetStep_eq:
  "subsetStep acc c =
     (if \<exists>a\<in>set acc. isSubsetMatch c a then acc
      else filter (\<lambda>m. \<not> isSubsetMatch m c) acc @ [c])"
  by (simp add: subsetStep_def Let_def list_ex_iff
        splice_indices_filter [where P = "\<lambda>m. isSubsetMatch m c"])

lemma isSubsetMatch_irrefl: "\<not> isSubsetMatch a a"
  by (simp add: isSubsetMatch_iff)

lemma isSubsetMatch_trans: "isSubsetMatch a b \<Longrightarrow> isSubsetMatch b c \<Longrightarrow> isSubsetMatch a c"
  by (auto simp: isSubsetMatch_iff)

lemma subsetStep_set: "set (subsetStep acc c) \<subseteq> insert c (set acc)"
  by (auto simp: subsetStep_eq)

lemma subsetStep_subseq: "subseq (subsetStep acc c) (acc @ [c])"
  by (simp add: subsetStep_eq subseq_snoc_skip subseq_snoc_same)

lemma subsetStep_antichain: "antichain (set acc) \<Longrightarrow> antichain (set (subsetStep acc c))"
  by (auto simp: subsetStep_eq antichain_def isSubsetMatch_irrefl)

lemma subsetStep_cover:
  assumes "x \<in> insert c (set acc)"
  shows "\<exists>y\<in>set (subsetStep acc c). set (photoIds x) \<subseteq> set (photoIds y)"
proof (cases "\<exists>a\<in>set acc. isSubsetMatch c a")
  case True
  then obtain a where "a \<in> set acc" "isSubsetMatch c a" by blast
  with assms True show ?thesis
    by (auto simp: subsetStep_eq isSubsetMatch_iff)
next
  case False
  with assms show ?thesis
    by (cases "isSubsetMatch x c") (auto simp: subsetStep_eq isSubsetMatch_iff)
qed

lemma fold_subset_subseq: "subseq (foldl subsetStep acc ms) (acc @ ms)"
proof (induction ms arbitrary: acc)
  case Nil
  then show ?case by simp
next
  case (Cons c ms)
  have "subseq (foldl subsetStep (subsetStep acc c) ms) (subsetStep acc c @ ms)"
    by (rule Cons.IH)
  also have "subseq (subsetStep acc c @ ms) ((acc @ [c]) @ ms)"
    by (intro list_emb_append_mono subsetStep_subseq) simp
  finally show ?case by simp
qed

lemma fold_subset_antichain:
  "antichain (set acc) \<Longrightarrow> antichain (set (foldl subsetStep acc ms))"
  by (induction ms arbitrary: acc) (simp_all add: subsetStep_antichain)

lemma fold_subset_cover:
  "x \<in> set acc \<union> set ms \<Longrightarrow>
   \<exists>y\<in>set (foldl subsetStep acc ms). set (photoIds x) \<subseteq> set (photoIds y)"
proof (induction ms arbitrary: acc x)
  case Nil
  then show ?case by auto
next
  case (Cons c ms)
  show ?case
  proof (cases "x \<in> set ms")
    case True
    then show ?thesis using Cons.IH [of x "subsetStep acc c"] by simp
  next
    case False
    with Cons.prems have "x \<in> insert c (set acc)" by auto
    from subsetStep_cover [OF this] obtain y where
      y: "y \<in> set (subsetStep acc c)" "set (photoIds x) \<subseteq> set (photoIds y)" by blast
    from Cons.IH [of y "subsetStep acc c"] y(1) obtain z where
      "z \<in> set (foldl subsetStep (subsetStep acc c) ms)" "set (photoIds y) \<subseteq> set (photoIds z)"
      by auto
    with y(2) show ?thesis by auto
  qed
qed

lemma fold_subset_id:
  "antichain (set acc \<union> set ms) \<Longrightarrow> foldl subsetStep acc ms = acc @ ms"
proof (induction ms arbitrary: acc)
  case Nil
  then show ?case by simp
next
  case (Cons c ms)
  have step: "subsetStep acc c = acc @ [c]"
    using Cons.prems by (auto simp: subsetStep_eq antichain_def filter_id_conv)
  have "antichain (set (acc @ [c]) \<union> set ms)"
    using Cons.prems by (simp add: Un_commute insert_commute Un_insert_left)
  from Cons.IH [OF this] step show ?case by simp
qed

lemma removeSubsetMatches_subseq: "subseq (removeSubsetMatches ms) ms"
  using fold_subset_subseq [of "[]" ms] by (simp add: removeSubsetMatches_def)

lemma antichain_empty: "antichain {}"
  by (simp add: antichain_def)

lemma removeSubsetMatches_antichain: "antichain (set (removeSubsetMatches ms))"
  using fold_subset_antichain [of "[]" ms] by (simp add: removeSubsetMatches_def antichain_empty)

lemma removeSubsetMatches_cover:
  "x \<in> set ms \<Longrightarrow> \<exists>y\<in>set (removeSubsetMatches ms). set (photoIds x) \<subseteq> set (photoIds y)"
  using fold_subset_cover [of x "[]" ms] by (simp add: removeSubsetMatches_def)

lemma removeSubsetMatches_id: "antichain (set ms) \<Longrightarrow> removeSubsetMatches ms = ms"
  using fold_subset_id [of "[]" ms] by (simp add: removeSubsetMatches_def)

lemma removeSubsetMatches_drops_subset:
  assumes "a \<in> set ms" "b \<in> set ms" "isSubsetMatch a b"
  shows "a \<notin> set (removeSubsetMatches ms)"
proof
  assume a: "a \<in> set (removeSubsetMatches ms)"
  from removeSubsetMatches_cover [OF assms(2)] obtain y where
    y: "y \<in> set (removeSubsetMatches ms)" "set (photoIds b) \<subseteq> set (photoIds y)" by blast
  from assms(3) y(2) have "isSubsetMatch a y"
    by (auto simp: isSubsetMatch_iff)
  with a y(1) removeSubsetMatches_antichain [of ms] show False
    by (auto simp: antichain_def)
qed

subsection \<open>Stage C: reciprocal removal\<close>

lemma reciprocalStep_eq:
  "reciprocalStep (seen, acc) m =
     (if pairKeyOf m \<in> seen then (seen, acc) else (insert (pairKeyOf m) seen, acc @ [m]))"
  by (simp add: reciprocalStep_def Let_def pairKeyOf_def)

lemma fold_reciprocal:
  "snd (foldl reciprocalStep (seen, acc) ms) = acc @ firstPerKey seen ms"
  by (induction ms arbitrary: seen acc) (simp_all add: reciprocalStep_eq)

lemma removeReciprocalMatches_eq: "removeReciprocalMatches ms = firstPerKey {} ms"
  by (simp add: removeReciprocalMatches_def fold_reciprocal)

lemma firstPerKey_subseq: "subseq (firstPerKey seen ms) ms"
  by (induction ms arbitrary: seen) (auto intro: list_emb_Cons)

lemma firstPerKey_fresh: "m \<in> set (firstPerKey seen ms) \<Longrightarrow> pairKeyOf m \<notin> seen"
  by (induction ms arbitrary: seen) (auto split: if_splits)

lemma firstPerKey_distinct: "distinct (map pairKeyOf (firstPerKey seen ms))"
proof (induction ms arbitrary: seen)
  case Nil
  then show ?case by simp
next
  case (Cons m ms)
  have "pairKeyOf x \<noteq> pairKeyOf m"
    if "x \<in> set (firstPerKey (insert (pairKeyOf m) seen) ms)" for x
    using firstPerKey_fresh [OF that] by simp
  then have "pairKeyOf m \<notin> pairKeyOf ` set (firstPerKey (insert (pairKeyOf m) seen) ms)"
    by force
  with Cons.IH show ?case by simp
qed

lemma firstPerKey_filter:
  "filter (\<lambda>x. pairKeyOf x = k) (firstPerKey seen ms) =
     (if k \<in> seen then [] else take 1 (filter (\<lambda>x. pairKeyOf x = k) ms))"
proof (induction ms arbitrary: seen)
  case Nil
  then show ?case by simp
next
  case (Cons m ms)
  show ?case
  proof (cases "pairKeyOf m \<in> seen")
    case True
    with Cons.IH [of seen] show ?thesis by auto
  next
    case False
    with Cons.IH [of "insert (pairKeyOf m) seen"] show ?thesis by auto
  qed
qed

lemma firstPerKey_id:
  "distinct (map pairKeyOf ms) \<Longrightarrow> pairKeyOf ` set ms \<inter> seen = {} \<Longrightarrow> firstPerKey seen ms = ms"
proof (induction ms arbitrary: seen)
  case Nil
  then show ?case by simp
next
  case (Cons m ms)
  have "pairKeyOf ` set ms \<inter> insert (pairKeyOf m) seen = {}"
    using Cons.prems by auto
  with Cons.IH [of "insert (pairKeyOf m) seen"] Cons.prems show ?case by auto
qed

lemma removeReciprocalMatches_id:
  "distinct (map pairKeyOf ms) \<Longrightarrow> removeReciprocalMatches ms = ms"
  by (simp add: removeReciprocalMatches_eq firstPerKey_id)

subsection \<open>Stage D: temporal-overlap suppression\<close>

lemma calculatePhotoOverlap_sym: "calculatePhotoOverlap a b = calculatePhotoOverlap b a"
proof -
  have "Set.filter (\<lambda>i. i \<in> B) A = Set.filter (\<lambda>i. i \<in> A) B" for A B :: "string set"
    by auto
  then show ?thesis
    by (simp add: calculatePhotoOverlap_def Let_def Un_commute)
qed

lemma calculateTimeOverlap_sym: "calculateTimeOverlap a b = calculateTimeOverlap b a"
  by (simp add: calculateTimeOverlap_def Let_def max.commute min.commute)

lemma hasSignificantOverlap_sym: "hasSignificantOverlap a b = hasSignificantOverlap b a"
  by (simp add: hasSignificantOverlap_def Let_def calculatePhotoOverlap_sym [of a b]
        calculateTimeOverlap_sym [of a b])

lemma temporalStep_eq:
  "temporalStep acc c =
     (if \<exists>e\<in>set acc. hasSignificantOverlap c e then acc else acc @ [c])"
  by (simp add: temporalStep_def list_ex_iff)

lemma temporalStep_subseq: "subseq (temporalStep acc c) (acc @ [c])"
  by (simp add: temporalStep_eq subseq_snoc_skip)

lemma temporalStep_conflictFree:
  "conflictFree (set acc) \<Longrightarrow> conflictFree (set (temporalStep acc c))"
  using hasSignificantOverlap_sym by (auto simp: temporalStep_eq conflictFree_def)

lemma fold_temporal_subseq: "subseq (foldl temporalStep acc ms) (acc @ ms)"
proof (induction ms arbitrary: acc)
  case Nil
  then show ?case by simp
next
  case (Cons c ms)
  have "subseq (foldl temporalStep (temporalStep acc c) ms) (temporalStep acc c @ ms)"
    by (rule Cons.IH)
  also have "subseq (temporalStep acc c @ ms) ((acc @ [c]) @ ms)"
    by (intro list_emb_append_mono temporalStep_subseq) simp
  finally show ?case by simp
qed

lemma fold_temporal_conflictFree:
  "conflictFree (set acc) \<Longrightarrow> conflictFree (set (foldl temporalStep acc ms))"
  by (induction ms arbitrary: acc) (simp_all add: temporalStep_conflictFree)

lemma fold_temporal_id:
  "distinct (acc @ ms) \<Longrightarrow> conflictFree (set acc \<union> set ms) \<Longrightarrow>
   foldl temporalStep acc ms = acc @ ms"
proof (induction ms arbitrary: acc)
  case Nil
  then show ?case by simp
next
  case (Cons c ms)
  have step: "temporalStep acc c = acc @ [c]"
    using Cons.prems by (auto simp: temporalStep_eq conflictFree_def)
  have "distinct ((acc @ [c]) @ ms)" "conflictFree (set (acc @ [c]) \<union> set ms)"
    using Cons.prems by (simp_all add: Un_commute insert_commute Un_insert_left)
  from Cons.IH [OF this] step show ?case by simp
qed

lemma removeTemporalOverlaps_subseq: "subseq (removeTemporalOverlaps ms) ms"
  using fold_temporal_subseq [of "[]" ms] by (simp add: removeTemporalOverlaps_def)

lemma conflictFree_empty: "conflictFree {}"
  by (simp add: conflictFree_def)

lemma removeTemporalOverlaps_conflictFree: "conflictFree (set (removeTemporalOverlaps ms))"
  using fold_temporal_conflictFree [of "[]" ms]
  by (simp add: removeTemporalOverlaps_def conflictFree_empty)

lemma removeTemporalOverlaps_id:
  "distinct ms \<Longrightarrow> conflictFree (set ms) \<Longrightarrow> removeTemporalOverlaps ms = ms"
  using fold_temporal_id [of "[]" ms] by (simp add: removeTemporalOverlaps_def)

subsection \<open>Sorting by confidence\<close>

lemma sortByConfidence_descending: "descending (sortByConfidence ms)"
  by (simp add: descending_def sortByConfidence_def)

lemma sortByConfidence_set: "set (sortByConfidence ms) = set ms"
  by (simp add: sortByConfidence_def)

lemma sortByConfidence_mset: "mset (sortByConfidence ms) = mset ms"
  by (simp add: sortByConfidence_def)

lemma sortByConfidence_id: "descending ms \<Longrightarrow> sortByConfidence ms = ms"
  by (simp add: descending_def sortByConfidence_def sort_key_id_if_sorted)

lemma descending_subseq: "subseq xs ys \<Longrightarrow> descending ys \<Longrightarrow> descending xs"
  unfolding descending_def
  by (rule subseq_sorted_wrt [OF subseq_map])

lemma descending_short: "length ms \<le> 1 \<Longrightarrow> descending ms"
  by (cases ms) (simp_all add: descending_def)

subsection \<open>The basic pass: what its result satisfies, and that it is a fixed point\<close>

lemma deduplicateMatches_long:
  "1 < length ms \<Longrightarrow>
   deduplicateMatches ms =
     removeTemporalOverlaps (removeReciprocalMatches (removeSubsetMatches (sortByConfidence ms)))"
  by (simp add: deduplicateMatches_def Let_def)

lemma deduplicateMatches_short: "length ms \<le> 1 \<Longrightarrow> deduplicateMatches ms = ms"
  by (simp add: deduplicateMatches_def)

lemma antichain_subset: "antichain S \<Longrightarrow> T \<subseteq> S \<Longrightarrow> antichain T"
  by (auto simp: antichain_def)

lemma conflictFree_subset: "conflictFree S \<Longrightarrow> T \<subseteq> S \<Longrightarrow> conflictFree T"
  by (auto simp: conflictFree_def)

lemma clean_short: "length ms \<le> 1 \<Longrightarrow> clean ms"
proof -
  assume "length ms \<le> 1"
  then consider "ms = []" | m where "ms = [m]"
    by (cases ms) auto
  then show ?thesis
    by cases
       (simp_all add: clean_def descending_def antichain_def conflictFree_def
          isSubsetMatch_irrefl)
qed

lemma deduplicateMatches_clean: "clean (deduplicateMatches ms)"
proof (cases "length ms \<le> 1")
  case True
  then show ?thesis by (simp add: deduplicateMatches_short clean_short)
next
  case False
  let ?s = "sortByConfidence ms"
  let ?b = "removeSubsetMatches ?s"
  let ?c = "removeReciprocalMatches ?b"
  let ?d = "removeTemporalOverlaps ?c"
  have eq: "deduplicateMatches ms = ?d"
    using False by (simp add: deduplicateMatches_long)
  have dc: "subseq ?d ?c" by (rule removeTemporalOverlaps_subseq)
  have cb: "subseq ?c ?b" by (simp add: removeReciprocalMatches_eq firstPerKey_subseq)
  have bs: "subseq ?b ?s" by (rule removeSubsetMatches_subseq)
  have "descending ?d"
    using dc cb bs sortByConfidence_descending [of ms] by (blast intro: descending_subseq)
  moreover have "antichain (set ?d)"
    using removeSubsetMatches_antichain [of ?s] subseq_set_subset [OF dc] subseq_set_subset [OF cb]
    by (blast intro: antichain_subset)
  moreover have "distinct (map pairKeyOf ?d)"
    using subseq_distinct [OF subseq_map [OF dc, of pairKeyOf]]
    by (simp add: removeReciprocalMatches_eq firstPerKey_distinct)
  moreover have "conflictFree (set ?d)"
    by (rule removeTemporalOverlaps_conflictFree)
  ultimately show ?thesis by (simp add: eq clean_def)
qed

lemma clean_fixed_point: "clean ms \<Longrightarrow> deduplicateMatches ms = ms"
proof (cases "length ms \<le> 1")
  case True
  then show ?thesis by (simp add: deduplicateMatches_short)
next
  case False
  assume c: "clean ms"
  then have "distinct ms"
    by (auto simp: clean_def distinct_map)
  with c False show ?thesis
    by (simp add: deduplicateMatches_long clean_def sortByConfidence_id
          removeSubsetMatches_id removeReciprocalMatches_id removeTemporalOverlaps_id)
qed

lemma deduplicateMatches_subset: "set (deduplicateMatches ms) \<subseteq> set ms"
proof (cases "length ms \<le> 1")
  case True
  then show ?thesis by (simp add: deduplicateMatches_short)
next
  case False
  let ?s = "sortByConfidence ms"
  let ?b = "removeSubsetMatches ?s"
  let ?c = "removeReciprocalMatches ?b"
  have "set (removeTemporalOverlaps ?c) \<subseteq> set ?c" "set ?c \<subseteq> set ?b" "set ?b \<subseteq> set ?s"
    by (simp_all add: subseq_set_subset removeTemporalOverlaps_subseq
          removeReciprocalMatches_eq firstPerKey_subseq removeSubsetMatches_subseq)
  with False show ?thesis
    by (simp add: deduplicateMatches_long sortByConfidence_set)
qed

lemma deduplicateMatches_mset: "mset (deduplicateMatches ms) \<subseteq># mset ms"
proof (cases "length ms \<le> 1")
  case True
  then show ?thesis by (simp add: deduplicateMatches_short)
next
  case False
  let ?s = "sortByConfidence ms"
  let ?b = "removeSubsetMatches ?s"
  let ?c = "removeReciprocalMatches ?b"
  have "subseq (removeTemporalOverlaps ?c) ?s"
    using removeTemporalOverlaps_subseq [of ?c] removeSubsetMatches_subseq [of ?s]
      firstPerKey_subseq [of "{}" ?b]
    by (simp add: removeReciprocalMatches_eq)
  from subseq_mset [OF this] False show ?thesis
    by (simp add: deduplicateMatches_long sortByConfidence_mset)
qed

subsection \<open>Stage E: clusters and their representatives\<close>

lemma clusterInner_eq:
  "clusterInner m (cl, pr) x =
     (if match_id x \<in> pr then (cl, pr)
      else if calculatePhotoOverlap m x > 0.3 then (cl @ [x], insert (match_id x) pr)
      else (cl, pr))"
  by (simp add: clusterInner_def Let_def)

lemma fold_clusterInner:
  "\<exists>ys. foldl (clusterInner m) (cl, pr) xs = (cl @ ys, pr \<union> match_id ` set ys)
        \<and> set ys \<subseteq> set xs \<and> distinct (map match_id ys) \<and> match_id ` set ys \<inter> pr = {}"
proof (induction xs arbitrary: cl pr)
  case Nil
  show ?case by (intro exI [of _ "[]"]) simp
next
  case (Cons x xs)
  show ?case
  proof (cases "match_id x \<notin> pr \<and> calculatePhotoOverlap m x > 0.3")
    case True
    from Cons.IH [of "cl @ [x]" "insert (match_id x) pr"] obtain ys where
      ys: "foldl (clusterInner m) (cl @ [x], insert (match_id x) pr) xs
             = ((cl @ [x]) @ ys, insert (match_id x) pr \<union> match_id ` set ys)"
          "set ys \<subseteq> set xs" "distinct (map match_id ys)"
          "match_id ` set ys \<inter> insert (match_id x) pr = {}"
      by blast
    show ?thesis
      using True ys by (intro exI [of _ "x # ys"]) (auto simp: clusterInner_eq)
  next
    case False
    from Cons.IH [of cl pr] obtain ys where
      "foldl (clusterInner m) (cl, pr) xs = (cl @ ys, pr \<union> match_id ` set ys)"
      "set ys \<subseteq> set xs" "distinct (map match_id ys)" "match_id ` set ys \<inter> pr = {}"
      by blast
    with False show ?thesis
      by (intro exI [of _ ys]) (auto simp: clusterInner_eq)
  qed
qed

lemma clusterOuter_inv:
  assumes "clusterInv U state" "m \<in> U" "set matches \<subseteq> U"
  shows "clusterInv U (clusterOuter matches state m)"
proof (cases "match_id m \<in> snd state")
  case True
  with assms(1) show ?thesis by (simp add: clusterOuter_def Let_def)
next
  case False
  obtain cls pr where state: "state = (cls, pr)" by (cases state)
  from fold_clusterInner [of m "[m]" "insert (match_id m) pr" matches] obtain ys where
    ys: "foldl (clusterInner m) ([m], insert (match_id m) pr) matches
           = ([m] @ ys, insert (match_id m) pr \<union> match_id ` set ys)"
        "set ys \<subseteq> set matches" "distinct (map match_id ys)"
        "match_id ` set ys \<inter> insert (match_id m) pr = {}"
    by blast
  have new: "clusterOuter matches (cls, pr) m
             = (cls @ [m # ys], insert (match_id m) pr \<union> match_id ` set ys)"
    using False ys(1) by (simp add: clusterOuter_def Let_def state)
  from assms(1) have inv: "match_id ` set (concat cls) \<subseteq> pr"
    "distinct (map match_id (concat cls))" "set (concat cls) \<subseteq> U"
    by (simp_all add: clusterInv_def state)
  have "match_id ` set (concat cls) \<inter> match_id ` set (m # ys) = {}"
    using inv(1) ys(4) False by (auto simp: state)
  then show ?thesis
    using inv ys(2-4) assms(2,3) False
    by (auto simp: new clusterInv_def state)
qed

lemma fold_clusterOuter_inv:
  "clusterInv U state \<Longrightarrow> set xs \<subseteq> U \<Longrightarrow> set matches \<subseteq> U \<Longrightarrow>
   clusterInv U (foldl (clusterOuter matches) state xs)"
  by (induction xs arbitrary: state) (simp_all add: clusterOuter_inv)

lemma identifyPhotoClusters_inv:
  "distinct (map match_id (concat (identifyPhotoClusters ms)))
   \<and> set (concat (identifyPhotoClusters ms)) \<subseteq> set ms"
proof -
  have "clusterInv (set ms) ([], {})"
    by (simp add: clusterInv_def)
  from fold_clusterOuter_inv [OF this, of ms ms] show ?thesis
    by (simp add: identifyPhotoClusters_def clusterInv_def)
qed

lemma foldl_betterOf_mem: "foldl betterOf b xs \<in> insert b (set xs)"
proof (induction xs arbitrary: b)
  case Nil
  then show ?case by simp
next
  case (Cons x xs)
  have "betterOf b x = b \<or> betterOf b x = x"
    by (simp add: betterOf_def Let_def)
  with Cons.IH [of "betterOf b x"] show ?case by auto
qed

lemma representative_subset: "set (representative c) \<subseteq> set c"
  using foldl_betterOf_mem by (cases c) (auto simp: representative_def)

lemma representative_short: "length (representative c) \<le> 1"
  by (cases c) (simp_all add: representative_def)

lemma representatives_subset: "set (concat (map representative cls)) \<subseteq> set (concat cls)"
  using representative_subset by fastforce

lemma representatives_distinct:
  "distinct (map f (concat cls)) \<Longrightarrow> distinct (map f (concat (map representative cls)))"
proof (induction cls)
  case Nil
  then show ?case by simp
next
  case (Cons c cls)
  have one: "distinct (map f (representative c))"
    using representative_short [of c]
    by (cases "representative c") (simp_all add: Suc_le_eq)
  have rest: "distinct (map f (concat (map representative cls)))"
    using Cons by simp
  have "f ` set c \<inter> f ` set (concat cls) = {}"
    using Cons.prems by auto
  moreover have "f ` set (representative c) \<subseteq> f ` set c"
    using representative_subset [of c] by blast
  moreover have "f ` set (concat (map representative cls)) \<subseteq> f ` set (concat cls)"
    using representatives_subset [of cls] by blast
  ultimately have "f ` set (representative c) \<inter> f ` set (concat (map representative cls)) = {}"
    by blast
  with one rest show ?case by simp
qed

lemma advancedDeduplication_short: "length ms \<le> 1 \<Longrightarrow> advancedDeduplication ms = ms"
  by (simp add: advancedDeduplication_def)

lemma advancedDeduplication_long:
  "1 < length ms \<Longrightarrow>
   advancedDeduplication ms =
     sortByConfidence (concat (map representative (identifyPhotoClusters ms)))"
  by (simp add: advancedDeduplication_def Let_def)

lemma advancedDeduplication_subset: "set (advancedDeduplication ms) \<subseteq> set ms"
proof (cases "length ms \<le> 1")
  case True
  then show ?thesis by (simp add: advancedDeduplication_short)
next
  case False
  then show ?thesis
    using representatives_subset [of "identifyPhotoClusters ms"] identifyPhotoClusters_inv [of ms]
    by (auto simp: advancedDeduplication_long sortByConfidence_set)
qed

lemma advancedDeduplication_ids:
  "1 < length ms \<Longrightarrow> distinct (map match_id (advancedDeduplication ms))"
proof -
  assume long: "1 < length ms"
  let ?reps = "concat (map representative (identifyPhotoClusters ms))"
  have "distinct (map match_id ?reps)"
    using identifyPhotoClusters_inv [of ms] by (intro representatives_distinct) simp
  then have "distinct (map match_id (sortByConfidence ?reps))"
    by (simp add: distinct_map sortByConfidence_def)
  with long show ?thesis by (simp add: advancedDeduplication_long)
qed

lemma advancedDeduplication_distinct:
  "distinct ms \<Longrightarrow> distinct (advancedDeduplication ms)"
proof (cases "length ms \<le> 1")
  case True
  moreover assume "distinct ms"
  ultimately show ?thesis by (simp add: advancedDeduplication_short)
next
  case False
  then show ?thesis
    using advancedDeduplication_ids [of ms] by (simp add: distinct_map)
qed

lemma advancedDeduplication_descending:
  "descending ms \<Longrightarrow> descending (advancedDeduplication ms)"
proof (cases "length ms \<le> 1")
  case True
  moreover assume "descending ms"
  ultimately show ?thesis by (simp add: advancedDeduplication_short)
next
  case False
  then show ?thesis by (simp add: advancedDeduplication_long sortByConfidence_descending)
qed

lemma advancedDeduplication_clean:
  assumes "clean ms"
  shows "clean (advancedDeduplication ms)"
proof -
  let ?o = "advancedDeduplication ms"
  have sub: "set ?o \<subseteq> set ms" by (rule advancedDeduplication_subset)
  from assms have d: "distinct ms" and inj: "inj_on pairKeyOf (set ms)"
    by (auto simp: clean_def distinct_map)
  have "distinct ?o" using d by (rule advancedDeduplication_distinct)
  moreover have "inj_on pairKeyOf (set ?o)"
    using inj sub by (rule inj_on_subset)
  ultimately have "distinct (map pairKeyOf ?o)" by (simp add: distinct_map)
  with assms sub show ?thesis
    by (auto simp: clean_def advancedDeduplication_descending
             intro: antichain_subset conflictFree_subset)
qed

lemma distinct_subset_mset: "distinct ys \<Longrightarrow> set ys \<subseteq> set xs \<Longrightarrow> mset ys \<subseteq># mset xs"
proof (induction ys arbitrary: xs)
  case Nil
  then show ?case by simp
next
  case (Cons y ys)
  then have "y \<in> set xs" by simp
  then have y: "y \<in># mset xs" by simp
  have "x \<in> set (remove1 y xs)" if "x \<in> set ys" for x
  proof -
    from that Cons.prems have "x \<noteq> y" "x \<in> set xs" by auto
    then show ?thesis by (simp add: in_set_remove1)
  qed
  then have "set ys \<subseteq> set (remove1 y xs)" by blast
  moreover have "distinct ys" using Cons.prems by simp
  ultimately have "mset ys \<subseteq># mset (remove1 y xs)" by (rule Cons.IH [rotated])
  then have "mset ys \<subseteq># mset xs - {#y#}"
    by (simp only: mset_remove1)
  then have "add_mset y (mset ys) \<subseteq># add_mset y (mset xs - {#y#})"
    by (simp only: mset_subset_eq_add_mset_cancel)
  with y show ?case by simp
qed

lemma advancedDeduplication_mset: "mset (advancedDeduplication ms) \<subseteq># mset ms"
proof (cases "length ms \<le> 1")
  case True
  then show ?thesis by (simp add: advancedDeduplication_short)
next
  case False
  then have "distinct (advancedDeduplication ms)"
    using advancedDeduplication_ids [of ms] by (simp add: distinct_map)
  then show ?thesis
    using advancedDeduplication_subset by (rule distinct_subset_mset)
qed

subsection \<open>Clusters of a list without overlapping pairs\<close>

lemma fold_clusterInner_none:
  "\<forall>x\<in>set xs. match_id x \<in> pr \<or> \<not> calculatePhotoOverlap m x > 0.3 \<Longrightarrow>
   foldl (clusterInner m) (cl, pr) xs = (cl, pr)"
  by (induction xs) (auto simp: clusterInner_eq)

lemma fold_clusterOuter_singletons:
  assumes "distinct (map match_id xs)" "match_id ` set xs \<inter> pr = {}"
    and "\<forall>a\<in>set xs. \<forall>b\<in>set matches. match_id a = match_id b \<or> \<not> calculatePhotoOverlap a b > 0.3"
  shows "fst (foldl (clusterOuter matches) (cls, pr) xs) = cls @ map (\<lambda>m. [m]) xs"
  using assms
proof (induction xs arbitrary: cls pr)
  case Nil
  then show ?case by simp
next
  case (Cons m xs)
  have fresh: "match_id m \<notin> pr" using Cons.prems(2) by auto
  have "\<forall>x\<in>set matches. match_id x \<in> insert (match_id m) pr
          \<or> \<not> calculatePhotoOverlap m x > 0.3"
    using Cons.prems(3) by auto
  then have inner: "foldl (clusterInner m) ([m], insert (match_id m) pr) matches
                    = ([m], insert (match_id m) pr)"
    by (rule fold_clusterInner_none)
  have step: "clusterOuter matches (cls, pr) m = (cls @ [[m]], insert (match_id m) pr)"
    using fresh by (simp add: clusterOuter_def Let_def inner)
  have "match_id ` set xs \<inter> insert (match_id m) pr = {}"
    using Cons.prems(1,2) by auto
  with Cons.IH [of "insert (match_id m) pr" "cls @ [[m]]"] Cons.prems show ?case
    by (simp add: step)
qed

lemma representative_singletons: "concat (map representative (map (\<lambda>m. [m]) xs)) = xs"
  by (induction xs) (simp_all add: representative_def)

lemma advancedDeduplication_separate:
  assumes "descending ms" "distinct (map match_id ms)"
    and "\<forall>a\<in>set ms. \<forall>b\<in>set ms. a \<noteq> b \<longrightarrow> \<not> calculatePhotoOverlap a b > 0.3"
  shows "advancedDeduplication ms = ms"
proof (cases "length ms \<le> 1")
  case True
  then show ?thesis by (simp add: advancedDeduplication_short)
next
  case False
  have sep: "\<forall>a\<in>set ms. \<forall>b\<in>set ms.
               match_id a = match_id b \<or> \<not> calculatePhotoOverlap a b > 0.3"
    using assms(3) by metis
  have "match_id ` set ms \<inter> {} = {}" by simp
  with assms(2) have "fst (foldl (clusterOuter ms) ([], {}) ms) = [] @ map (\<lambda>m. [m]) ms"
    using sep by (rule fold_clusterOuter_singletons)
  then have clusters: "identifyPhotoClusters ms = map (\<lambda>m. [m]) ms"
    by (simp add: identifyPhotoClusters_def)
  from False have "1 < length ms" by simp
  then have "advancedDeduplication ms
             = sortByConfidence (concat (map representative (identifyPhotoClusters ms)))"
    by (rule advancedDeduplication_long)
  also have "\<dots> = sortByConfidence ms"
    by (simp only: clusters representative_singletons)
  also have "\<dots> = ms"
    using assms(1) by (rule sortByConfidence_id)
  finally show ?thesis .
qed

subsection \<open>Validity filter\<close>

lemma validateAndCleanMatches_id:
  "\<forall>m\<in>set ms. isValidMatch m \<Longrightarrow> validateAndCleanMatches ms = ms"
  by (simp add: validateAndCleanMatches_def filter_id_conv)

lemma processMatches_eq:
  "processMatchesWithDeduplication ms
   = advancedDeduplication (deduplicateMatches (validateAndCleanMatches ms))"
  by (simp add: processMatchesWithDeduplication_def Let_def)

lemma processMatches_subset:
  "set (processMatchesWithDeduplication ms) \<subseteq> set (validateAndCleanMatches ms)"
  using advancedDeduplication_subset deduplicateMatches_subset
  unfolding processMatches_eq by blast

lemma processMatches_valid: "m \<in> set (processMatchesWithDeduplication ms) \<Longrightarrow> isValidMatch m"
  using processMatches_subset [of ms] by (auto simp: validateAndCleanMatches_def)

lemma processMatches_clean: "clean (processMatchesWithDeduplication ms)"
  unfolding processMatches_eq
  by (intro advancedDeduplication_clean deduplicateMatches_clean)

lemma processMatches_stages_fixed:
  "deduplicateMatches (validateAndCleanMatches (processMatchesWithDeduplication ms))
   = processMatchesWithDeduplication ms"
  by (simp add: validateAndCleanMatches_id processMatches_valid clean_fixed_point
        processMatches_clean)

lemma processMatches_ids:
  "1 < length (processMatchesWithDeduplication ms) \<Longrightarrow>
   distinct (map match_id (processMatchesWithDeduplication ms))"
proof -
  let ?x = "deduplicateMatches (validateAndCleanMatches ms)"
  assume long: "1 < length (processMatchesWithDeduplication ms)"
  have "1 < length ?x"
  proof (rule ccontr)
    assume "\<not> 1 < length ?x"
    then have "advancedDeduplication ?x = ?x" "length ?x \<le> 1"
      by (simp_all add: advancedDeduplication_short)
    with long show False by (simp add: processMatches_eq)
  qed
  then show ?thesis
    unfolding processMatches_eq by (rule advancedDeduplication_ids)
qed

subsection \<open>The whole pass, applied twice\<close>

text \<open>
  C3. The full pass is not idempotent: the clustering stage compares a candidate only
  with the seeds of the clusters, so two representatives that survive one pass can fall
  into one cluster in the next (see the example after the theorem). What holds: the validity
  filter and the basic pass leave the result of the full pass unchanged, the basic pass
  is idempotent, so a second full pass is a second clustering stage only; and it changes
  nothing when no two candidates of the result overlap by more than 0.3.
\<close>

theorem dedup_fixed_point_up_to_clustering:
  "processMatchesWithDeduplication (processMatchesWithDeduplication ms)
     = advancedDeduplication (processMatchesWithDeduplication ms)
   \<and> deduplicateMatches (validateAndCleanMatches (processMatchesWithDeduplication ms))
     = processMatchesWithDeduplication ms
   \<and> deduplicateMatches (deduplicateMatches ms) = deduplicateMatches ms
   \<and> ((\<forall>a\<in>set (processMatchesWithDeduplication ms).
        \<forall>b\<in>set (processMatchesWithDeduplication ms).
          a \<noteq> b \<longrightarrow> calculatePhotoOverlap a b \<le> 0.3)
      \<longrightarrow> processMatchesWithDeduplication (processMatchesWithDeduplication ms)
          = processMatchesWithDeduplication ms)"
proof -
  let ?o = "processMatchesWithDeduplication ms"
  have again: "processMatchesWithDeduplication ?o = advancedDeduplication ?o"
    by (simp add: processMatches_eq [of ?o] processMatches_stages_fixed)
  have basic: "deduplicateMatches (deduplicateMatches ms) = deduplicateMatches ms"
    by (intro clean_fixed_point deduplicateMatches_clean)
  have "advancedDeduplication ?o = ?o"
    if sep: "\<forall>a\<in>set ?o. \<forall>b\<in>set ?o. a \<noteq> b \<longrightarrow> calculatePhotoOverlap a b \<le> 0.3"
  proof (cases "length ?o \<le> 1")
    case True
    then show ?thesis by (rule advancedDeduplication_short)
  next
    case False
    then have "distinct (map match_id ?o)"
      by (intro processMatches_ids) simp
    moreover have "descending ?o"
      using processMatches_clean [of ms] by (simp add: clean_def)
    moreover have "\<forall>a\<in>set ?o. \<forall>b\<in>set ?o. a \<noteq> b \<longrightarrow> \<not> calculatePhotoOverlap a b > 0.3"
      using sep by (auto simp: not_less)
    ultimately show ?thesis by (intro advancedDeduplication_separate)
  qed
  with again basic processMatches_stages_fixed [of ms] show ?thesis by simp
qed

theorem dedup_fixed_point_witness:
  "processMatchesWithDeduplication [seedA, seedB] = [seedA, seedB]
   \<and> calculatePhotoOverlap seedA seedB \<le> 0.3
   \<and> processMatchesWithDeduplication (processMatchesWithDeduplication [seedA, seedB])
       = processMatchesWithDeduplication [seedA, seedB]"
proof -
  have out: "processMatchesWithDeduplication [seedA, seedB] = [seedA, seedB]"
    by code_simp
  have ab: "calculatePhotoOverlap seedA seedB \<le> 0.3" and ba: "calculatePhotoOverlap seedB seedA \<le> 0.3"
    by code_simp+
  from dedup_fixed_point_up_to_clustering [of "[seedA, seedB]"] out ab ba show ?thesis
    by simp
qed

theorem dedup_not_idempotent:
  "processMatchesWithDeduplication [seedA, seedB, bridge] = [seedB, bridge]
   \<and> processMatchesWithDeduplication [seedB, bridge] = [bridge]
   \<and> processMatchesWithDeduplication (processMatchesWithDeduplication [seedA, seedB, bridge])
       \<noteq> processMatchesWithDeduplication [seedA, seedB, bridge]"
proof -
  have one: "processMatchesWithDeduplication [seedA, seedB, bridge] = [seedB, bridge]"
    by code_simp
  have two: "processMatchesWithDeduplication [seedB, bridge] = [bridge]"
    by code_simp
  from one two show ?thesis by simp
qed

subsection \<open>The pass only removes and reorders\<close>

text \<open>
  C10. The full pass returns candidates of its input, unchanged (a candidate is a record
  value, so membership means equality of all fields), and no more copies of a candidate
  than the input holds.
\<close>

theorem dedup_removes_only:
  "set (processMatchesWithDeduplication ms) \<subseteq> set ms
   \<and> mset (processMatchesWithDeduplication ms) \<subseteq># mset ms"
proof -
  have "set (validateAndCleanMatches ms) \<subseteq> set ms"
    by (auto simp: validateAndCleanMatches_def)
  with processMatches_subset [of ms] have one: "set (processMatchesWithDeduplication ms) \<subseteq> set ms"
    by blast
  have "mset (validateAndCleanMatches ms) \<subseteq># mset ms"
    by (simp add: validateAndCleanMatches_def)
  with advancedDeduplication_mset [of "deduplicateMatches (validateAndCleanMatches ms)"]
    deduplicateMatches_mset [of "validateAndCleanMatches ms"]
  have "mset (processMatchesWithDeduplication ms) \<subseteq># mset ms"
    unfolding processMatches_eq by (blast intro: subset_mset.order_trans)
  with one show ?thesis by simp
qed

subsection \<open>No proper subsets survive\<close>

text \<open>
  C4. In the result of \<open>deduplicateMatches\<close> no candidate's set of photo ids is a proper
  subset of another's; and of two candidates of the input, one a proper subset of the
  other, the smaller is absent from the result, whatever their confidences.
\<close>

theorem subset_removal:
  "(\<forall>a\<in>set (deduplicateMatches ms). \<forall>b\<in>set (deduplicateMatches ms).
      \<not> set (photoIds a) \<subset> set (photoIds b))
   \<and> (\<forall>a\<in>set ms. \<forall>b\<in>set ms.
        set (photoIds a) \<subset> set (photoIds b) \<longrightarrow> a \<notin> set (deduplicateMatches ms))"
proof -
  have "antichain (set (deduplicateMatches ms))"
    using deduplicateMatches_clean [of ms] by (simp add: clean_def)
  then have first: "\<forall>a\<in>set (deduplicateMatches ms). \<forall>b\<in>set (deduplicateMatches ms).
      \<not> set (photoIds a) \<subset> set (photoIds b)"
    by (simp add: antichain_def isSubsetMatch_iff)
  have "a \<notin> set (deduplicateMatches ms)"
    if "a \<in> set ms" "b \<in> set ms" "set (photoIds a) \<subset> set (photoIds b)" for a b
  proof -
    from that have "a \<noteq> b" by auto
    with that(1,2) have long: "1 < length ms"
      by (cases ms rule: list.exhaust, simp, case_tac x22, auto)
    let ?s = "sortByConfidence ms"
    have "a \<notin> set (removeSubsetMatches ?s)"
      using that by (intro removeSubsetMatches_drops_subset [of a ?s b])
                    (simp_all add: sortByConfidence_set isSubsetMatch_iff)
    moreover have "set (deduplicateMatches ms) \<subseteq> set (removeSubsetMatches ?s)"
      using subseq_set_subset [OF removeTemporalOverlaps_subseq]
        subseq_set_subset [OF firstPerKey_subseq]
      by (simp add: deduplicateMatches_long [OF long] removeReciprocalMatches_eq) blast
    ultimately show ?thesis by blast
  qed
  with first show ?thesis by blast
qed

theorem subset_removal_witness:
  "set (photoIds smallGroup) \<subset> set (photoIds bigGroup)
   \<and> smallGroup \<notin> set (deduplicateMatches [bigGroup, smallGroup])
   \<and> smallGroup \<notin> set (deduplicateMatches [smallGroup, bigGroup])"
proof -
  have sub: "set (photoIds smallGroup) \<subset> set (photoIds bigGroup)"
    by code_simp
  from subset_removal [of "[bigGroup, smallGroup]"] subset_removal [of "[smallGroup, bigGroup]"] sub
  show ?thesis by simp
qed

subsection \<open>The pair key determines the photo ids\<close>

lemma join_Cons: "join sep (x # xs) = (if xs = [] then x else x @ sep @ join sep xs)"
  by (cases xs) simp_all

lemma bar_split:
  assumes "CHR ''|'' \<notin> set x" "CHR ''|'' \<notin> set y" "x @ CHR ''|'' # r = y @ CHR ''|'' # s"
  shows "x = y \<and> r = s"
proof -
  have tw: "takeWhile (\<lambda>c. c \<noteq> CHR ''|'') (z @ CHR ''|'' # t) = z"
    if "CHR ''|'' \<notin> set z" for z t
  proof -
    from that have "\<forall>c\<in>set z. c \<noteq> CHR ''|''" by auto
    then show ?thesis by (simp add: takeWhile_append2)
  qed
  have "takeWhile (\<lambda>c. c \<noteq> CHR ''|'') (x @ CHR ''|'' # r) = x"
    using assms(1) by (rule tw)
  moreover have "takeWhile (\<lambda>c. c \<noteq> CHR ''|'') (y @ CHR ''|'' # s) = y"
    using assms(2) by (rule tw)
  ultimately have "x = y" using assms(3) by simp
  with assms(3) show ?thesis by simp
qed

lemma join_inj:
  assumes "xs \<noteq> []" "ys \<noteq> []"
    and "\<forall>x\<in>set xs. CHR ''|'' \<notin> set x" "\<forall>y\<in>set ys. CHR ''|'' \<notin> set y"
    and "join ''|'' xs = join ''|'' ys"
  shows "xs = ys"
  using assms
proof (induction xs arbitrary: ys)
  case Nil
  then show ?case by simp
next
  case (Cons x xs)
  from Cons.prems(2) obtain y ys' where ys: "ys = y # ys'" by (cases ys) auto
  have x: "CHR ''|'' \<notin> set x" and y: "CHR ''|'' \<notin> set y"
    using Cons.prems(3,4) by (simp_all add: ys)
  show ?case
  proof (cases "xs = []")
    case True
    show ?thesis
    proof (cases "ys' = []")
      case True
      with \<open>xs = []\<close> Cons.prems(5) show ?thesis by (simp add: ys)
    next
      case False
      with \<open>xs = []\<close> Cons.prems(5) have "x = y @ CHR ''|'' # join ''|'' ys'"
        by (simp add: ys join_Cons)
      with x show ?thesis by auto
    qed
  next
    case False
    show ?thesis
    proof (cases "ys' = []")
      case True
      with False Cons.prems(5) have "y = x @ CHR ''|'' # join ''|'' xs"
        by (simp add: ys join_Cons)
      with y show ?thesis by auto
    next
      case ne: False
      from False ne Cons.prems(5)
      have "x @ CHR ''|'' # join ''|'' xs = y @ CHR ''|'' # join ''|'' ys'"
        by (simp add: ys join_Cons)
      from bar_split [OF x y this] have "x = y" "join ''|'' xs = join ''|'' ys'"
        by simp_all
      moreover from Cons.IH [OF False ne _ _ this(2)] Cons.prems(3,4) have "xs = ys'"
        by (simp add: ys)
      ultimately show ?thesis by (simp add: ys)
    qed
  qed
qed

lemma pairKeyOf_eq: "pairKeyOf m = join ''|'' (sort (photoIds m))"
  by (simp add: pairKeyOf_def generatePairKey_def sorted_sort_id)

lemma pairKeyOf_inj:
  assumes "wellFormedIds a" "wellFormedIds b"
  shows "pairKeyOf a = pairKeyOf b \<longleftrightarrow> set (photoIds a) = set (photoIds b)"
proof
  assume "pairKeyOf a = pairKeyOf b"
  then have "join ''|'' (sort (photoIds a)) = join ''|'' (sort (photoIds b))"
    by (simp add: pairKeyOf_eq)
  moreover have "sort (photoIds a) \<noteq> []" "sort (photoIds b) \<noteq> []"
    using assms by (auto simp: wellFormedIds_def photoIds_def dest!: arg_cong [where f = length])
  moreover have "\<forall>x\<in>set (sort (photoIds a)). CHR ''|'' \<notin> set x"
    "\<forall>y\<in>set (sort (photoIds b)). CHR ''|'' \<notin> set y"
    using assms by (simp_all add: wellFormedIds_def list_all_iff)
  ultimately have "sort (photoIds a) = sort (photoIds b)"
    by (intro join_inj)
  then have "set (sort (photoIds a)) = set (sort (photoIds b))" by simp
  then show "set (photoIds a) = set (photoIds b)" by simp
next
  assume "set (photoIds a) = set (photoIds b)"
  with assms have "mset (photoIds a) = mset (photoIds b)"
    by (simp add: wellFormedIds_def set_eq_iff_mset_eq_distinct)
  then have "sort (photoIds a) = sort (photoIds b)"
    by (intro properties_for_sort) simp_all
  then show "pairKeyOf a = pairKeyOf b" by (simp add: pairKeyOf_eq)
qed

text \<open>
  Where the pair key stands for the set of photo ids: for candidates with at least one
  photo, distinct ids and no \<open>|\<close> in an id, reciprocal removal keeps, of the candidates
  with a given set of photo ids, exactly the first one of its input, and neither its
  result nor the result of \<open>deduplicateMatches\<close> holds two candidates with equal sets
  of photo ids.
\<close>

lemma reciprocal_removal:
  assumes "\<forall>m\<in>set ms. wellFormedIds m"
  shows "filter (\<lambda>x. set (photoIds x) = S) (removeReciprocalMatches ms)
           = take 1 (filter (\<lambda>x. set (photoIds x) = S) ms)
         \<and> distinct (map (\<lambda>m. set (photoIds m)) (removeReciprocalMatches ms))
         \<and> distinct (map (\<lambda>m. set (photoIds m)) (deduplicateMatches ms))"
proof -
  let ?ids = "\<lambda>m. set (photoIds m)"
  have sub: "set (removeReciprocalMatches ms) \<subseteq> set ms"
    by (simp add: removeReciprocalMatches_eq subseq_set_subset firstPerKey_subseq)
  have first: "filter (\<lambda>x. ?ids x = S) (removeReciprocalMatches ms)
               = take 1 (filter (\<lambda>x. ?ids x = S) ms)"
  proof (cases "\<exists>m\<in>set ms. ?ids m = S")
    case False
    then have "filter (\<lambda>x. ?ids x = S) ms = []"
      by (auto simp: filter_empty_conv)
    moreover from False sub have "filter (\<lambda>x. ?ids x = S) (removeReciprocalMatches ms) = []"
      by (auto simp: filter_empty_conv)
    ultimately show ?thesis by simp
  next
    case True
    then obtain m where m: "m \<in> set ms" "?ids m = S" by blast
    have key: "(?ids x = S) = (pairKeyOf x = pairKeyOf m)" if "x \<in> set ms" for x
      using that m assms by (simp add: pairKeyOf_inj)
    have "filter (\<lambda>x. ?ids x = S) (removeReciprocalMatches ms)
          = filter (\<lambda>x. pairKeyOf x = pairKeyOf m) (removeReciprocalMatches ms)"
      using sub key by (intro filter_cong refl) blast
    also have "\<dots> = take 1 (filter (\<lambda>x. pairKeyOf x = pairKeyOf m) ms)"
      by (simp add: removeReciprocalMatches_eq firstPerKey_filter)
    also have "filter (\<lambda>x. pairKeyOf x = pairKeyOf m) ms = filter (\<lambda>x. ?ids x = S) ms"
      using key by (intro filter_cong refl) simp
    finally show ?thesis .
  qed
  have inj: "inj_on ?ids (set xs)" if "set xs \<subseteq> set ms" "distinct (map pairKeyOf xs)" for xs
  proof (rule inj_onI)
    fix x y assume xy: "x \<in> set xs" "y \<in> set xs" "?ids x = ?ids y"
    with that(1) assms have "pairKeyOf x = pairKeyOf y"
      by (simp add: pairKeyOf_inj subset_iff)
    with that(2) xy(1,2) show "x = y"
      by (simp add: distinct_map inj_on_def)
  qed
  have lift: "distinct (map ?ids xs)" if "set xs \<subseteq> set ms" "distinct (map pairKeyOf xs)" for xs
    using that inj [OF that] by (simp add: distinct_map)
  have second: "distinct (map ?ids (removeReciprocalMatches ms))"
    using sub by (intro lift) (simp_all add: removeReciprocalMatches_eq firstPerKey_distinct)
  have third: "distinct (map ?ids (deduplicateMatches ms))"
    using deduplicateMatches_subset [of ms] deduplicateMatches_clean [of ms]
    by (intro lift) (simp_all add: clean_def)
  from first second third show ?thesis by simp
qed

lemma reciprocal_removal_example:
  "wellFormedIds pairFromP5 \<and> wellFormedIds pairFromP7
   \<and> set (photoIds pairFromP7) = set (photoIds pairFromP5)
   \<and> removeReciprocalMatches [pairFromP5, pairFromP7] = [pairFromP5]
   \<and> filter (\<lambda>x. set (photoIds x) = set (photoIds pairFromP5))
        (removeReciprocalMatches [pairFromP5, pairFromP7]) = [pairFromP5]"
proof -
  have wf: "wellFormedIds pairFromP5" "wellFormedIds pairFromP7"
    by code_simp+
  have same: "set (photoIds pairFromP7) = set (photoIds pairFromP5)"
    by code_simp
  have out: "removeReciprocalMatches [pairFromP5, pairFromP7] = [pairFromP5]"
    by code_simp
  from reciprocal_removal [of "[pairFromP5, pairFromP7]" "set (photoIds pairFromP5)"] wf same out
  show ?thesis by simp
qed

text \<open>
  C5. The key of a candidate is its sorted list of photo ids joined with \<open>|\<close>, so two
  different sets of ids can share a key when an id contains the separator: the ids
  \<open>a|b, c\<close> and \<open>a, b, c\<close> both give \<open>a|b|c\<close>. Of two such candidates reciprocal
  removal keeps the first and drops the second, although no other candidate has the
  second one's set of photo ids; the basic pass and the full pass lose it as well.
\<close>

theorem reciprocal_key_collision:
  "set (photoIds plainTriple) \<noteq> set (photoIds barPair)
   \<and> distinct (photoIds barPair) \<and> distinct (photoIds plainTriple)
   \<and> generatePairKey (photoIds barPair) = ''a|b|c''
   \<and> generatePairKey (photoIds plainTriple) = ''a|b|c''
   \<and> removeReciprocalMatches [barPair, plainTriple] = [barPair]
   \<and> deduplicateMatches [barPair, plainTriple] = [barPair]
   \<and> processMatchesWithDeduplication [barPair, plainTriple] = [barPair]"
  by code_simp

subsection \<open>Stage D in the words of the specification\<close>

lemma calculatePhotoOverlap_jaccard:
  "calculatePhotoOverlap a b = jaccard (set (photoIds a)) (set (photoIds b))"
proof -
  have "Set.filter (\<lambda>i. i \<in> B) A = A \<inter> B" for A B :: "string set"
    by auto
  then show ?thesis
    by (simp add: calculatePhotoOverlap_def jaccard_def Let_def)
qed

lemma calculateTimeOverlap_ratio:
  "calculateTimeOverlap a b = timeOverlapRatio (timeWindow a) (timeWindow b)"
  by (simp add: calculateTimeOverlap_def timeOverlapRatio_def Let_def max_def min_def)

lemma timeOverlapRatio_pos:
  "timeOverlapRatio A B > 0 \<longleftrightarrow> max (tw_start A) (tw_start B) < min (tw_end A) (tw_end B)"
proof (cases "max (tw_start A) (tw_start B) < min (tw_end A) (tw_end B)")
  case True
  then have "0 < max (tw_end A) (tw_end B) - min (tw_start A) (tw_start B)"
    by (auto simp: max_def min_def split: if_splits)
  with True show ?thesis
    by (simp add: timeOverlapRatio_def)
next
  case False
  then have "min (tw_end A) (tw_end B) - max (tw_start A) (tw_start B) \<le> 0"
    by linarith
  then have "max 0 (min (tw_end A) (tw_end B) - max (tw_start A) (tw_start B)) = 0"
    by (rule max_absorb1)
  with False show ?thesis
    by (simp add: timeOverlapRatio_def)
qed

lemma hasSignificantOverlap_spec:
  "hasSignificantOverlap c e \<longleftrightarrow>
     jaccard (set (photoIds c)) (set (photoIds e)) > 0.5
     \<and> timeOverlapRatio (timeWindow c) (timeWindow e) > 0"
  by (simp add: hasSignificantOverlap_def Let_def calculatePhotoOverlap_jaccard
        calculateTimeOverlap_ratio)

text \<open>
  C6. Temporal-overlap suppression, one candidate at a time: the candidate \<open>c\<close> that
  follows the list \<open>ms\<close> is dropped exactly when some candidate accepted from \<open>ms\<close> has a
  Jaccard overlap above 0.5 with it and a positive time-overlap ratio; the ratio is
  positive exactly when the windows intersect in more than a point; so two candidates
  with disjoint windows both survive, whatever their photo ids.
\<close>

theorem temporal_suppression:
  "removeTemporalOverlaps (ms @ [c]) =
     (if \<exists>e\<in>set (removeTemporalOverlaps ms).
           jaccard (set (photoIds c)) (set (photoIds e)) > 0.5
           \<and> timeOverlapRatio (timeWindow c) (timeWindow e) > 0
      then removeTemporalOverlaps ms
      else removeTemporalOverlaps ms @ [c])
   \<and> (timeOverlapRatio (timeWindow a) (timeWindow b) > 0 \<longleftrightarrow>
        max (tw_start (timeWindow a)) (tw_start (timeWindow b))
          < min (tw_end (timeWindow a)) (tw_end (timeWindow b)))
   \<and> (tw_end (timeWindow a) \<le> tw_start (timeWindow b)
        \<or> tw_end (timeWindow b) \<le> tw_start (timeWindow a)
      \<longrightarrow> removeTemporalOverlaps [a, b] = [a, b])"
proof -
  have "removeTemporalOverlaps (ms @ [c])
        = temporalStep (removeTemporalOverlaps ms) c"
    by (simp add: removeTemporalOverlaps_def)
  then have one: "removeTemporalOverlaps (ms @ [c]) =
     (if \<exists>e\<in>set (removeTemporalOverlaps ms).
           jaccard (set (photoIds c)) (set (photoIds e)) > 0.5
           \<and> timeOverlapRatio (timeWindow c) (timeWindow e) > 0
      then removeTemporalOverlaps ms
      else removeTemporalOverlaps ms @ [c])"
    by (simp only: temporalStep_eq hasSignificantOverlap_spec)
  have three: "tw_end (timeWindow a) \<le> tw_start (timeWindow b)
        \<or> tw_end (timeWindow b) \<le> tw_start (timeWindow a)
      \<longrightarrow> removeTemporalOverlaps [a, b] = [a, b]"
  proof
    assume "tw_end (timeWindow a) \<le> tw_start (timeWindow b)
        \<or> tw_end (timeWindow b) \<le> tw_start (timeWindow a)"
    then have "\<not> timeOverlapRatio (timeWindow b) (timeWindow a) > 0"
      unfolding timeOverlapRatio_pos by (auto simp: max_def min_def)
    then show "removeTemporalOverlaps [a, b] = [a, b]"
      by (simp add: removeTemporalOverlaps_def temporalStep_eq hasSignificantOverlap_spec)
  qed
  show ?thesis
    by (rule conjI [OF one conjI [OF timeOverlapRatio_pos three]])
qed

theorem temporal_suppression_witness:
  "tw_end (timeWindow earlyGroup) \<le> tw_start (timeWindow lateGroup)
   \<and> jaccard (set (photoIds earlyGroup)) (set (photoIds lateGroup)) = 3 / 4
   \<and> removeTemporalOverlaps [earlyGroup, lateGroup] = [earlyGroup, lateGroup]
   \<and> jaccard (set (photoIds nearGroup)) (set (photoIds earlyGroup)) = 3 / 5
   \<and> timeOverlapRatio (timeWindow nearGroup) (timeWindow earlyGroup) = 1 / 3
   \<and> removeTemporalOverlaps ([earlyGroup] @ [nearGroup]) = [earlyGroup]"
proof -
  have w: "tw_end (timeWindow earlyGroup) \<le> tw_start (timeWindow lateGroup)"
    by code_simp
  have j: "jaccard (set (photoIds earlyGroup)) (set (photoIds lateGroup)) = 3 / 4"
    by code_simp
  have single: "removeTemporalOverlaps [earlyGroup] = [earlyGroup]"
    by code_simp
  have j2: "jaccard (set (photoIds nearGroup)) (set (photoIds earlyGroup)) = 3 / 5"
    by code_simp
  have t2: "timeOverlapRatio (timeWindow nearGroup) (timeWindow earlyGroup) = 1 / 3"
    by code_simp
  from temporal_suppression [of "[]" earlyGroup earlyGroup lateGroup] w
  have far: "removeTemporalOverlaps [earlyGroup, lateGroup] = [earlyGroup, lateGroup]"
    by simp
  from temporal_suppression [of "[earlyGroup]" nearGroup earlyGroup lateGroup]
  have near: "removeTemporalOverlaps ([earlyGroup] @ [nearGroup]) = [earlyGroup]"
    by (simp add: single j2 t2)
  from w j far j2 t2 near show ?thesis by simp
qed

subsection \<open>Candidate generator: what a batch emits\<close>

lemma neighbourStep_eq:
  "neighbourStep n p (mp, td, vc) x =
     (if isNeighbour n p x then (mp @ [x], td + distanceTo n p x, vc + 1) else (mp, td, vc))"
  by (auto simp: neighbourStep_def isNeighbour_def distanceTo_def Let_def split: sum.splits)

lemma fold_neighbourStep:
  "foldl (neighbourStep n p) (mp, td, vc) xs =
     (mp @ filter (isNeighbour n p) xs,
      td + (\<Sum>x\<leftarrow>filter (isNeighbour n p) xs. distanceTo n p x),
      vc + length (filter (isNeighbour n p) xs))"
  by (induction xs arbitrary: mp td vc) (simp_all add: neighbourStep_eq add.assoc)

lemma distanceTo_bounds: "isNeighbour n p x \<Longrightarrow> 0 \<le> distanceTo n p x \<and> distanceTo n p x \<le> 20"
  by (auto simp: isNeighbour_def distanceTo_def split: sum.splits)

lemma candidateFor_Some:
  assumes "candidateFor env k all p = Some m"
  shows "filter (isNeighbour (nativeModule env) p) all \<noteq> []
         \<and> photos m = sort_key creationTime (p # filter (isNeighbour (nativeModule env) p) all)
         \<and> hammingDistance m =
             (\<Sum>x\<leftarrow>filter (isNeighbour (nativeModule env) p) all.
                 distanceTo (nativeModule env) p x)
             / real (length (filter (isNeighbour (nativeModule env) p) all))
         \<and> confidence m = batchConfidence (hammingDistance m)
         \<and> timeWindow m = batchWindow p \<and> status m = pending"
  using assms
  by (auto simp: candidateFor_def fold_neighbourStep Let_def split: if_splits)

lemma findMatchesFrom_appends:
  "\<exists>new. findMatchesFrom env all k batch raw = raw @ new
         \<and> (\<forall>m\<in>set new. emittedFrom env all batch m)"
proof (induction batch arbitrary: k raw)
  case Nil
  show ?case by (intro exI [of _ "[]"]) simp
next
  case (Cons p batch)
  have mono: "emittedFrom env all (p # batch) m" if "emittedFrom env all batch m" for m
    using that by (auto simp: emittedFrom_def)
  show ?case
  proof (cases "\<not> hasHash p \<or> cancelledAt env k")
    case True
    from Cons.IH [of "k + 1" raw] obtain new where
      "findMatchesFrom env all (k + 1) batch raw = raw @ new"
      "\<forall>m\<in>set new. emittedFrom env all batch m" by blast
    with True mono show ?thesis
      by (intro exI [of _ new]) auto
  next
    case False
    show ?thesis
    proof (cases "candidateFor env k all p")
      case None
      from Cons.IH [of "k + 1" raw] obtain new where
        "findMatchesFrom env all (k + 1) batch raw = raw @ new"
        "\<forall>m\<in>set new. emittedFrom env all batch m" by blast
      with False None mono show ?thesis
        by (intro exI [of _ new]) auto
    next
      case (Some c)
      from Cons.IH [of "k + 1" "raw @ [c]"] obtain new where
        new: "findMatchesFrom env all (k + 1) batch (raw @ [c]) = (raw @ [c]) @ new"
        "\<forall>m\<in>set new. emittedFrom env all batch m" by blast
      have "emittedFrom env all (p # batch) c"
        using False Some by (auto simp: emittedFrom_def)
      with False Some new mono show ?thesis
        by (intro exI [of _ "c # new"]) auto
    qed
  qed
qed

lemma batchConfidence_range: "0 \<le> d \<Longrightarrow> 0 \<le> batchConfidence d \<and> batchConfidence d \<le> 100"
  by (simp add: batchConfidence_def)

lemma batchConfidence_antimono: "d1 \<le> d2 \<Longrightarrow> batchConfidence d2 \<le> batchConfidence d1"
  by (simp add: batchConfidence_def max_def)

lemma sum_list_nonneg_bounded:
  "\<forall>x\<in>set xs. 0 \<le> f x \<and> f x \<le> (c::real) \<Longrightarrow>
   0 \<le> (\<Sum>x\<leftarrow>xs. f x) \<and> (\<Sum>x\<leftarrow>xs. f x) \<le> c * real (length xs)"
  by (induction xs) (auto simp: algebra_simps)

text \<open>
  C9. \<open>findMatchesInBatch\<close> only appends, and every candidate it appends has at least
  two photos in ascending order of creation time, consists of a seed of the batch and its
  neighbours, carries the mean of the distances from the seed to each neighbour, and has
  the confidence \<open>max 0 (100 - 3 * mean)\<close>, between 0 and 100. The confidence law is
  antitone in the mean distance.
\<close>

theorem emitted_candidates:
  "(\<exists>new. findMatchesInBatch env allProcessedPhotos newBatch rawMatches = rawMatches @ new
     \<and> (\<forall>m\<in>set new.
          2 \<le> length (photos m)
          \<and> sorted (map creationTime (photos m))
          \<and> (\<exists>seed\<in>set newBatch.
               filter (isNeighbour (nativeModule env) seed) allProcessedPhotos \<noteq> []
               \<and> mset (photos m)
                   = mset (seed # filter (isNeighbour (nativeModule env) seed) allProcessedPhotos)
               \<and> hammingDistance m =
                   (\<Sum>x\<leftarrow>filter (isNeighbour (nativeModule env) seed) allProcessedPhotos.
                       distanceTo (nativeModule env) seed x)
                   / real (length (filter (isNeighbour (nativeModule env) seed)
                                     allProcessedPhotos)))
          \<and> confidence m = max 0 (100 - hammingDistance m * 3)
          \<and> 0 \<le> confidence m \<and> confidence m \<le> 100))
   \<and> (\<forall>d1 d2. d1 \<le> d2 \<longrightarrow> batchConfidence d2 \<le> batchConfidence d1)"
proof -
  let ?Q = "\<lambda>m. 2 \<le> length (photos m)
          \<and> sorted (map creationTime (photos m))
          \<and> (\<exists>seed\<in>set newBatch.
               filter (isNeighbour (nativeModule env) seed) allProcessedPhotos \<noteq> []
               \<and> mset (photos m)
                   = mset (seed # filter (isNeighbour (nativeModule env) seed) allProcessedPhotos)
               \<and> hammingDistance m =
                   (\<Sum>x\<leftarrow>filter (isNeighbour (nativeModule env) seed) allProcessedPhotos.
                       distanceTo (nativeModule env) seed x)
                   / real (length (filter (isNeighbour (nativeModule env) seed)
                                     allProcessedPhotos)))
          \<and> confidence m = max 0 (100 - hammingDistance m * 3)
          \<and> 0 \<le> confidence m \<and> confidence m \<le> 100"
  from findMatchesFrom_appends [of env allProcessedPhotos 0 newBatch rawMatches]
  obtain new where new:
    "findMatchesInBatch env allProcessedPhotos newBatch rawMatches = rawMatches @ new"
    "\<forall>m\<in>set new. emittedFrom env allProcessedPhotos newBatch m"
    by (auto simp: findMatchesInBatch_def)
  have each: "?Q m" if "m \<in> set new" for m
  proof -
    from that new(2) obtain k p where p: "p \<in> set newBatch"
      and c: "candidateFor env k allProcessedPhotos p = Some m"
      by (auto simp: emittedFrom_def)
    let ?ns = "filter (isNeighbour (nativeModule env) p) allProcessedPhotos"
    from candidateFor_Some [OF c] have ne: "?ns \<noteq> []"
      and ph: "photos m = sort_key creationTime (p # ?ns)"
      and hd: "hammingDistance m
               = (\<Sum>x\<leftarrow>?ns. distanceTo (nativeModule env) p x) / real (length ?ns)"
      and cf: "confidence m = batchConfidence (hammingDistance m)"
      by simp_all
    have len: "2 \<le> length (photos m)"
      using ne by (cases ?ns) (simp_all add: ph)
    have srt: "sorted (map creationTime (photos m))"
      by (simp only: ph sorted_sort_key)
    have ms: "mset (photos m) = mset (p # ?ns)"
      by (simp add: ph)
    have "0 \<le> (\<Sum>x\<leftarrow>?ns. distanceTo (nativeModule env) p x)"
      using sum_list_nonneg_bounded [of ?ns "distanceTo (nativeModule env) p" 20]
      by (simp add: distanceTo_bounds)
    then have nonneg: "0 \<le> hammingDistance m"
      by (simp add: hd)
    from batchConfidence_range [OF nonneg] have range: "0 \<le> confidence m" "confidence m \<le> 100"
      by (simp_all add: cf)
    have law: "confidence m = max 0 (100 - hammingDistance m * 3)"
      by (simp add: cf batchConfidence_def)
    from p ne ms hd have "\<exists>seed\<in>set newBatch.
               filter (isNeighbour (nativeModule env) seed) allProcessedPhotos \<noteq> []
               \<and> mset (photos m)
                   = mset (seed # filter (isNeighbour (nativeModule env) seed) allProcessedPhotos)
               \<and> hammingDistance m =
                   (\<Sum>x\<leftarrow>filter (isNeighbour (nativeModule env) seed) allProcessedPhotos.
                       distanceTo (nativeModule env) seed x)
                   / real (length (filter (isNeighbour (nativeModule env) seed)
                                     allProcessedPhotos))"
      by (intro bexI [of _ p]) simp_all
    with len srt law range show ?thesis by (intro conjI)
  qed
  have all: "\<forall>m\<in>set new. ?Q m"
  proof
    fix m assume "m \<in> set new"
    then show "?Q m" by (rule each)
  qed
  from new(1) all
  have "findMatchesInBatch env allProcessedPhotos newBatch rawMatches = rawMatches @ new
        \<and> (\<forall>m\<in>set new. ?Q m)"
    by (rule conjI)
  then have ex: "\<exists>new. findMatchesInBatch env allProcessedPhotos newBatch rawMatches
                         = rawMatches @ new \<and> (\<forall>m\<in>set new. ?Q m)"
    by (rule exI)
  have mono: "\<forall>d1 d2. d1 \<le> d2 \<longrightarrow> batchConfidence d2 \<le> batchConfidence d1"
    by (simp add: batchConfidence_antimono)
  from ex mono show ?thesis by (rule conjI)
qed

theorem emitted_candidates_witness:
  "findMatchesInBatch exampleEnv [shotP1, shotP2, shotP3] [shotP1] [] = [candidateP1]
   \<and> 2 \<le> length (photos candidateP1)
   \<and> sorted (map creationTime (photos candidateP1))
   \<and> confidence candidateP1 = max 0 (100 - hammingDistance candidateP1 * 3)
   \<and> batchConfidence 4 \<le> batchConfidence 3"
proof -
  have out: "findMatchesInBatch exampleEnv [shotP1, shotP2, shotP3] [shotP1] [] = [candidateP1]"
    by code_simp
  from emitted_candidates [of exampleEnv "[shotP1, shotP2, shotP3]" "[shotP1]" "[]"] out
  show ?thesis by auto
qed

end
